theory Spec2Isabelle
  imports Main "HOL-Library.Sublist" "HOL-Library.Product_Lexorder"
begin

section \<open>Strings as Python sees them\<close>

text \<open>
  The questionnaire tools (\<^verbatim>\<open>server.py\<close>, \<^verbatim>\<open>reorganize.py\<close>) work on Python \<^verbatim>\<open>str\<close>
  values. A \<^typ>\<open>char\<close> is read here as a code point below 256, so the character classes
  that the regular expressions and \<^verbatim>\<open>str.strip\<close> use are the ones Python has on that range:
  \<^item> \<^verbatim>\<open>\s\<close> and \<^verbatim>\<open>strip()\<close>: 0x09..0x0D, 0x1C..0x20, 0x85, 0xA0;
  \<^item> \<^verbatim>\<open>\d\<close>: the ten ASCII digits;
  \<^item> \<^verbatim>\<open>\w\<close> (for \<^verbatim>\<open>\b\<close>): the alphanumeric code points and the underscore.
\<close>

definition is_space :: "char \<Rightarrow> bool" where
  "is_space c =
     (let n = (of_char c :: nat)
      in (9 \<le> n \<and> n \<le> 13) \<or> (28 \<le> n \<and> n \<le> 32) \<or> n = 133 \<or> n = 160)"

definition is_digit :: "char \<Rightarrow> bool" where
  "is_digit c = (let n = (of_char c :: nat) in 48 \<le> n \<and> n \<le> 57)"

definition is_lower :: "char \<Rightarrow> bool" where
  "is_lower c = (let n = (of_char c :: nat) in 97 \<le> n \<and> n \<le> 122)"

definition is_upper :: "char \<Rightarrow> bool" where
  "is_upper c = (let n = (of_char c :: nat) in 65 \<le> n \<and> n \<le> 90)"

definition is_letter :: "char \<Rightarrow> bool" where
  "is_letter c = (is_lower c \<or> is_upper c)"

definition is_word :: "char \<Rightarrow> bool" where
  "is_word c =
     (let n = (of_char c :: nat)
      in is_digit c \<or> is_letter c \<or> n = 95
         \<or> n = 170 \<or> n = 178 \<or> n = 179 \<or> n = 181 \<or> n = 185 \<or> n = 186
         \<or> (188 \<le> n \<and> n \<le> 190) \<or> (192 \<le> n \<and> n \<le> 214)
         \<or> (216 \<le> n \<and> n \<le> 246) \<or> (248 \<le> n \<and> n \<le> 255))"

definition newline :: char where
  "newline = CHR 0x0A"

text \<open>\<^verbatim>\<open>s.strip()\<close>, \<^verbatim>\<open>s.startswith(p)\<close>, \<^verbatim>\<open>s.split(sep)\<close> for a one-character separator,
  \<^verbatim>\<open>sep.join(xs)\<close> and \<^verbatim>\<open>c.lower()\<close> on a letter.\<close>

definition strip :: "string \<Rightarrow> string" where
  "strip s = rev (dropWhile is_space (rev (dropWhile is_space s)))"

definition startswith :: "string \<Rightarrow> string \<Rightarrow> bool" where
  "startswith s p = prefix p s"

fun split :: "char \<Rightarrow> string \<Rightarrow> string list" where
  "split sep [] = [[]]"
| "split sep (c # cs) =
     (if c = sep then [] # split sep cs
      else (case split sep cs of [] \<Rightarrow> [[c]] | w # ws \<Rightarrow> (c # w) # ws))"

fun join :: "string \<Rightarrow> string list \<Rightarrow> string" where
  "join sep [] = []"
| "join sep [x] = x"
| "join sep (x # y # ys) = x @ sep @ join sep (y # ys)"

definition lower :: "char \<Rightarrow> char" where
  "lower c = (if is_upper c then char_of ((of_char c :: nat) + 32) else c)"

text \<open>
  Both tools get their text from \<^verbatim>\<open>Path.read_text(encoding="utf-8")\<close> and loop over
  \<^verbatim>\<open>text.split("\n")\<close>. A file is taken here as the characters that decoding its bytes
  gives. \<^verbatim>\<open>read_text\<close> opens the file in text mode, where every carriage return followed
  by a line feed, and every other carriage return, is read as one line feed. \<^verbatim>\<open>write_text\<close>
  stores the string it is given (the line separator of the platform being the line feed),
  so the new content of the file is that string.
\<close>

definition carriage_return :: char where
  "carriage_return = CHR 0x0D"

fun read_text :: "string \<Rightarrow> string" where
  "read_text [] = []"
| "read_text [c] = [if c = carriage_return then newline else c]"
| "read_text (c # d # cs) =
     (if c = carriage_return then
        (if d = newline then newline # read_text cs else newline # read_text (d # cs))
      else c # read_text (d # cs))"

definition file_lines :: "string \<Rightarrow> string list" where
  "file_lines file = split newline (read_text file)"

text \<open>\<^verbatim>\<open>str(n)\<close> for a non-negative integer, and \<^verbatim>\<open>int(s)\<close> on the strings that the program
  passes to it, which are runs of digits. \<^verbatim>\<open>int\<close> gives the value of a non-empty run of at
  most \<^verbatim>\<open>sys.get_int_max_str_digits()\<close> digits, 4300 unless it is configured otherwise, and
  raises ValueError (here \<open>None\<close>) on a longer run, leading zeros counted, and on a string
  that is no run of digits. The numbers that \<^verbatim>\<open>str\<close> is given count sections and questions
  and stay far below that limit.\<close>

definition int_max_str_digits :: nat where
  "int_max_str_digits = 4300"

definition digit_char :: "nat \<Rightarrow> char" where
  "digit_char d = char_of (48 + d)"

fun str_nat :: "nat \<Rightarrow> string" where
  "str_nat n = (if n < 10 then [digit_char n] else str_nat (n div 10) @ [digit_char (n mod 10)])"

declare str_nat.simps [simp del]

definition digit_val :: "char \<Rightarrow> nat" where
  "digit_val c = (of_char c :: nat) - 48"

definition py_int :: "string \<Rightarrow> nat option" where
  "py_int s =
     (if s \<noteq> [] \<and> list_all is_digit s \<and> length s \<le> int_max_str_digits
      then Some (foldl (\<lambda>a c. 10 * a + digit_val c) 0 s) else None)"

section \<open>The line patterns of \<^verbatim>\<open>server.py\<close>\<close>

text \<open>
  Every pattern is used with \<^verbatim>\<open>re.match\<close>, which anchors at the start of the line and does
  not need to reach its end. \<^verbatim>\<open>.\<close> matches every character but the newline.

  \<^verbatim>\<open>^Your answers?\b\<close>: after \<^verbatim>\<open>Your answer\<close> and the optional \<^verbatim>\<open>s\<close> the line ends or
  goes on with a non-word character.
\<close>

definition at_word_end :: "string \<Rightarrow> bool" where
  "at_word_end r = (case r of [] \<Rightarrow> True | c # _ \<Rightarrow> \<not> is_word c)"

definition is_answer_marker :: "string \<Rightarrow> bool" where
  "is_answer_marker line =
     (startswith line ''Your answer'' \<and>
      (let r = drop 11 line
       in (case r of [] \<Rightarrow> False | c # r' \<Rightarrow> c = CHR ''s'' \<and> at_word_end r') \<or> at_word_end r))"

text \<open>\<^verbatim>\<open>^### (\d+\.\d+)\<close> of \<^verbatim>\<open>save_answers\<close>: group 1.\<close>

definition match_qid :: "string \<Rightarrow> string option" where
  "match_qid line =
     (if startswith line ''### '' then
        (let r = drop 4 line; d1 = takeWhile is_digit r; r1 = dropWhile is_digit r
         in if d1 \<noteq> [] \<and> startswith r1 ''.'' then
              (let d2 = takeWhile is_digit (drop 1 r1)
               in if d2 \<noteq> [] then Some (d1 @ ''.'' @ d2) else None)
            else None)
      else None)"

text \<open>\<^verbatim>\<open>^If \([a-z]\)\<close> of the rewriter's skip loop.\<close>

definition is_if_prefix :: "string \<Rightarrow> bool" where
  "is_if_prefix line =
     (startswith line ''If ('' \<and>
      (case drop 4 line of c # d # _ \<Rightarrow> is_lower c \<and> d = CHR '')'' | _ \<Rightarrow> False))"

section \<open>The answer rewriter: \<^verbatim>\<open>save_answers\<close>\<close>

text \<open>The condition under which the inner \<^verbatim>\<open>while\<close> loop stops skipping (\<^verbatim>\<open>break\<close>).\<close>

definition is_boundary :: "string \<Rightarrow> bool" where
  "is_boundary peek =
     (startswith peek ''### ''
      \<or> startswith peek ''## ''
      \<or> startswith peek ''---''
      \<or> is_if_prefix peek
      \<or> is_answer_marker peek
      \<or> (startswith peek ''|'' \<and> CHR ''|'' \<in> set (drop 1 peek))
      \<or> startswith peek ''**'')"

text \<open>The inner loop: the lines from index \<open>i\<close> on go in, the lines from the index at which
  the loop stops come out.\<close>

fun skip_old :: "string list \<Rightarrow> string list" where
  "skip_old [] = []"
| "skip_old (peek # rest) = (if is_boundary peek then peek # rest else skip_old rest)"

text \<open>\<^verbatim>\<open>key = f"{cur_qid}_{answer_idx}" if cur_qid else None\<close>, and what is appended to
  \<^verbatim>\<open>result\<close> after the marker: the new answer if the key is there and its text is not
  blank, then one empty line.\<close>

definition slot_key :: "string option \<Rightarrow> nat \<Rightarrow> string option" where
  "slot_key cur_qid answer_idx =
     (case cur_qid of
        None \<Rightarrow> None
      | Some q \<Rightarrow> if q \<noteq> [] then Some (q @ ''_'' @ str_nat answer_idx) else None)"

definition new_slot :: "(string \<rightharpoonup> string) \<Rightarrow> string option \<Rightarrow> string list" where
  "new_slot answers key =
     (case key of
        None \<Rightarrow> [[]]
      | Some k \<Rightarrow>
          (if k \<noteq> [] then
             (case answers k of
                None \<Rightarrow> [[]]
              | Some a \<Rightarrow> if strip a \<noteq> [] then [a, []] else [[]])
           else [[]]))"

lemma length_skip_old: "length (skip_old ls) \<le> length ls"
  by (induction ls) auto

text \<open>The outer loop, on the lines from index \<open>i\<close> on, with \<^verbatim>\<open>cur_qid\<close>, \<^verbatim>\<open>answer_idx\<close> and
  \<^verbatim>\<open>result\<close> as they are at that point.\<close>

function save_loop ::
  "(string \<rightharpoonup> string) \<Rightarrow> string option \<Rightarrow> nat \<Rightarrow> string list \<Rightarrow> string list \<Rightarrow> string list"
where
  "save_loop answers cur_qid answer_idx [] result = result"
| "save_loop answers cur_qid answer_idx (line # rest) result =
     (let cur_qid' = (case match_qid line of Some q \<Rightarrow> Some q | None \<Rightarrow> cur_qid);
          answer_idx' = (case match_qid line of Some q \<Rightarrow> 0 | None \<Rightarrow> answer_idx)
      in if is_answer_marker line then
           save_loop answers cur_qid' (answer_idx' + 1) (skip_old rest)
             (result @ [line] @ new_slot answers (slot_key cur_qid' answer_idx'))
         else save_loop answers cur_qid' answer_idx' rest (result @ [line]))"
  by pat_completeness auto
termination
proof (relation "measure (\<lambda>(answers, cur_qid, answer_idx, ls, result). length ls)")
  show "wf (measure (\<lambda>(answers, cur_qid, answer_idx, ls, result). length ls))"
    by simp
next
  fix answers :: "string \<rightharpoonup> string" and cur_qid :: "string option" and answer_idx :: nat
    and line :: string and rest result :: "string list" and x xa
  show "((answers, x, xa + 1, skip_old rest,
           result @ [line] @ new_slot answers (slot_key x xa)),
          (answers, cur_qid, answer_idx, line # rest, result))
        \<in> measure (\<lambda>(answers, cur_qid, answer_idx, ls, result). length ls)"
    using length_skip_old [of rest] by simp
next
  fix answers :: "string \<rightharpoonup> string" and cur_qid :: "string option" and answer_idx :: nat
    and line :: string and rest result :: "string list" and x xa
  show "((answers, x, xa, rest, result @ [line]),
          (answers, cur_qid, answer_idx, line # rest, result))
        \<in> measure (\<lambda>(answers, cur_qid, answer_idx, ls, result). length ls)"
    by simp
qed

declare save_loop.simps [simp del]

text \<open>\<^verbatim>\<open>save_answers\<close> reads the file, runs the loop from the first line and writes the
  result back: from the content of the file to its new content.\<close>

definition save_answers :: "(string \<rightharpoonup> string) \<Rightarrow> string \<Rightarrow> string" where
  "save_answers answers file = join [newline] (save_loop answers None 0 (file_lines file) [])"


section \<open>The document parser: \<^verbatim>\<open>parse_markdown\<close>\<close>

record opt =
  opt_id :: string
  opt_text :: string
  opt_default :: bool

record table =
  headers :: "string list"
  rows :: "string list list"

record question =
  q_id :: string
  q_title :: string
  q_description :: string
  q_options :: "opt list"
  q_table :: "table option"
  q_answers :: "string list"
  q_sub_prompts :: "string list"

record qsection =
  sec_id :: nat
  sec_title :: string
  sec_questions :: "question list"

datatype error = ValueError | IndexError

text \<open>The longest run that \<^verbatim>\<open>.\<close> can match from the start of a string.\<close>

definition dot_run :: "string \<Rightarrow> string" where
  "dot_run s = takeWhile (\<lambda>c. c \<noteq> newline) s"

text \<open>\<^verbatim>\<open>^## (\d+)\. (.+)\<close>: groups 1 and 2.\<close>

definition match_section :: "string \<Rightarrow> (string \<times> string) option" where
  "match_section line =
     (if startswith line ''## '' then
        (let r = drop 3 line; d = takeWhile is_digit r; r1 = dropWhile is_digit r
         in if d \<noteq> [] \<and> startswith r1 ''. '' \<and> dot_run (drop 2 r1) \<noteq> []
            then Some (d, dot_run (drop 2 r1)) else None)
      else None)"

text \<open>\<^verbatim>\<open>^### (\d+\.\d+) (.+)\<close>: groups 1 and 2.\<close>

definition match_question :: "string \<Rightarrow> (string \<times> string) option" where
  "match_question line =
     (if startswith line ''### '' then
        (let r = drop 4 line; d1 = takeWhile is_digit r; r1 = dropWhile is_digit r
         in if d1 \<noteq> [] \<and> startswith r1 ''.'' then
              (let d2 = takeWhile is_digit (drop 1 r1); r2 = dropWhile is_digit (drop 1 r1)
               in if d2 \<noteq> [] \<and> startswith r2 '' '' \<and> dot_run (drop 1 r2) \<noteq> []
                  then Some (d1 @ ''.'' @ d2, dot_run (drop 1 r2)) else None)
            else None)
      else None)"

text \<open>
  \<^verbatim>\<open>^If \(([a-z])\),?\s*(.+)\<close>, used for its truth value only. After the closing
  parenthesis \<^verbatim>\<open>,?\<close> and \<^verbatim>\<open>\s*\<close> may match nothing, and \<^verbatim>\<open>\s*\<close> may run over newlines,
  so the pattern matches exactly when some character other than a newline follows.
\<close>

definition is_sub_prompt :: "string \<Rightarrow> bool" where
  "is_sub_prompt line =
     (startswith line ''If ('' \<and>
      (case drop 4 line of
         c # d # r \<Rightarrow> is_lower c \<and> d = CHR '')'' \<and> list_ex (\<lambda>x. x \<noteq> newline) r
       | _ \<Rightarrow> False))"

text \<open>
  \<^verbatim>\<open>^- \*\*\(([a-zA-Z])\)\s*(.+?)\*\*(.*)\<close>: groups 1, 2 and 3.
  \<open>find_stars s\<close> splits \<open>s\<close> at its first \<^verbatim>\<open>**\<close>. The greedy \<^verbatim>\<open>\s*\<close> first takes all
  the white space; the lazy group 2 then runs to the first \<^verbatim>\<open>**\<close> that leaves it at least
  one character. When that fails, giving back one white-space character to group 2 is
  the only other way to match, and it needs \<^verbatim>\<open>**\<close> right after the white space.
\<close>

fun find_stars :: "string \<Rightarrow> (string \<times> string) option" where
  "find_stars [] = None"
| "find_stars [c] = None"
| "find_stars (c # d # cs) =
     (if c = CHR ''*'' \<and> d = CHR ''*'' then Some ([], cs)
      else (case find_stars (d # cs) of None \<Rightarrow> None | Some (b, a) \<Rightarrow> Some (c # b, a)))"

definition lazy_to_stars :: "string \<Rightarrow> (string \<times> string) option" where
  "lazy_to_stars s =
     (case s of
        [] \<Rightarrow> None
      | x # s' \<Rightarrow>
          (case find_stars s' of
             None \<Rightarrow> None
           | Some (b, a) \<Rightarrow> if newline \<in> set (x # b) then None else Some (x # b, a)))"

definition match_default_option :: "string \<Rightarrow> (char \<times> string \<times> string) option" where
  "match_default_option line =
     (if startswith line ''- **('' then
        (case drop 5 line of
           c # d # r \<Rightarrow>
             (if is_letter c \<and> d = CHR '')'' then
                (let w = takeWhile is_space r; s = dropWhile is_space r
                 in case lazy_to_stars s of
                      Some (t, a) \<Rightarrow> Some (c, t, dot_run a)
                    | None \<Rightarrow>
                        (if w \<noteq> [] \<and> last w \<noteq> newline \<and> startswith s ''**''
                         then Some (c, [last w], dot_run (drop 2 s)) else None))
              else None)
         | _ \<Rightarrow> None)
      else None)"

text \<open>
  \<^verbatim>\<open>^- \(([a-zA-Z])\)\s*(.+)\<close>: groups 1 and 2. When only white space follows the
  parenthesis, \<^verbatim>\<open>\s*\<close> gives back its last character that is not a newline.
\<close>

definition match_option :: "string \<Rightarrow> (char \<times> string) option" where
  "match_option line =
     (if startswith line ''- ('' then
        (case drop 3 line of
           c # d # r \<Rightarrow>
             (if is_letter c \<and> d = CHR '')'' then
                (let s = dropWhile is_space r
                 in if s \<noteq> [] then Some (c, dot_run s)
                    else if list_ex (\<lambda>x. x \<noteq> newline) r
                    then Some (c, [last (filter (\<lambda>x. x \<noteq> newline) r)])
                    else None)
              else None)
         | _ \<Rightarrow> None)
      else None)"

text \<open>\<^verbatim>\<open>^[-:]+$\<close> on a cell: \<^verbatim>\<open>$\<close> also matches before a newline that ends the string.\<close>

definition is_sep_cell :: "string \<Rightarrow> bool" where
  "is_sep_cell c =
     (let run = takeWhile (\<lambda>x. x = CHR ''-'' \<or> x = CHR '':'') c;
          r = dropWhile (\<lambda>x. x = CHR ''-'' \<or> x = CHR '':'') c
      in run \<noteq> [] \<and> (r = [] \<or> r = [newline]))"

subsection \<open>\<^verbatim>\<open>_process_body\<close>\<close>

record body =
  desc_parts :: "string list"
  options :: "opt list"
  table_headers :: "string list option"
  table_rows :: "string list list"

text \<open>One iteration of the loop over the body lines.\<close>

definition body_line :: "body \<Rightarrow> string \<Rightarrow> body" where
  "body_line b line =
     (case match_default_option line of
        Some (letter, g2, g3) \<Rightarrow>
          (let txt = strip g2; extra = strip g3;
               txt' = (if extra \<noteq> [] then txt @ '' '' @ extra else txt)
           in b\<lparr>options := options b @ [\<lparr>opt_id = [lower letter], opt_text = txt', opt_default = True\<rparr>]\<rparr>)
      | None \<Rightarrow>
          (case match_option line of
             Some (letter, g2) \<Rightarrow>
               b\<lparr>options := options b @ [\<lparr>opt_id = [lower letter], opt_text = strip g2, opt_default = False\<rparr>]\<rparr>
           | None \<Rightarrow>
               (if startswith (strip line) ''|'' then
                  (let cells = map strip (butlast (tl (split (CHR ''|'') (strip line))))
                   in if list_all is_sep_cell cells then b
                      else (case table_headers b of
                              None \<Rightarrow> b\<lparr>table_headers := Some cells\<rparr>
                            | Some h \<Rightarrow> b\<lparr>table_rows := table_rows b @ [cells]\<rparr>))
                else if strip line \<noteq> [] then b\<lparr>desc_parts := desc_parts b @ [line]\<rparr>
                else b)))"

definition process_body :: "question \<Rightarrow> string list \<Rightarrow> question" where
  "process_body question lines =
     (let b = foldl body_line
                \<lparr>desc_parts = [], options = [], table_headers = None, table_rows = []\<rparr> lines
      in question
         \<lparr>q_description := strip (join [newline] (desc_parts b)),
          q_options := options b,
          q_table := (case table_headers b of
                        None \<Rightarrow> q_table question
                      | Some h \<Rightarrow> if h \<noteq> [] then Some \<lparr>headers = h, rows = table_rows b\<rparr>
                                  else q_table question)\<rparr>)"

subsection \<open>The main loop\<close>

text \<open>
  The local variables of \<^verbatim>\<open>parse_markdown\<close>. \<^verbatim>\<open>cur_sec\<close> is \<^verbatim>\<open>None\<close> until the first
  section header and the last element of \<^verbatim>\<open>sections\<close> from then on, so it has no field of
  its own. Python appends the question's dict object to \<^verbatim>\<open>cur_sec["questions"]\<close> at the
  question header and goes on changing it through \<^verbatim>\<open>cur_q\<close>; the last change is made by
  \<^verbatim>\<open>flush_question\<close>, which runs once for every question (before \<^verbatim>\<open>cur_q\<close> is set again,
  and at the end of the input). In this value model the section receives the question
  when \<^verbatim>\<open>flush_question\<close> has finished it: \<open>attach\<close>. \<^verbatim>\<open>sections\<close> does not change
  between a question's header and its flush, so the section that receives it and the
  order of the questions are those of the source.
\<close>

record pstate =
  sections :: "qsection list"
  cur_q :: "question option"
  answer_buf :: "string list"
  body_buf :: "string list"
  collecting_answer :: bool

definition attach :: "question \<Rightarrow> qsection list \<Rightarrow> qsection list" where
  "attach q secs =
     (if secs = [] then []
      else butlast secs @ [(last secs)\<lparr>sec_questions := sec_questions (last secs) @ [q]\<rparr>])"

text \<open>\<^verbatim>\<open>cur_q["answers"].append("\n".join(answer_buf).strip())\<close> and \<^verbatim>\<open>answer_buf.clear()\<close>.\<close>

definition close_answer :: "pstate \<Rightarrow> pstate" where
  "close_answer s =
     s\<lparr>cur_q := map_option
                  (\<lambda>q. q\<lparr>q_answers := q_answers q @ [strip (join [newline] (answer_buf s))]\<rparr>)
                  (cur_q s),
       answer_buf := []\<rparr>"

definition flush_question :: "pstate \<Rightarrow> pstate" where
  "flush_question s =
     (case cur_q s of
        None \<Rightarrow> s
      | Some q0 \<Rightarrow>
          (let s1 = (if collecting_answer s then (close_answer s)\<lparr>collecting_answer := False\<rparr> else s)
           in case cur_q s1 of
                None \<Rightarrow> s1
              | Some q1 \<Rightarrow>
                  (let q2 = process_body q1 (body_buf s1)
                   in s1\<lparr>cur_q := Some q2, body_buf := [], sections := attach q2 (sections s1)\<rparr>)))"

text \<open>One iteration of the loop over the lines. \<^verbatim>\<open>int(m.group(1))\<close> is the only call that
  can raise; it does on a section number of more than 4300 digits, and the exception ends
  \<^verbatim>\<open>parse_markdown\<close>.\<close>

definition parse_line :: "pstate \<Rightarrow> string \<Rightarrow> error + pstate" where
  "parse_line s line =
     (case match_section line of
        Some (num, title) \<Rightarrow>
          (case py_int num of
             None \<Rightarrow> Inl ValueError
           | Some n \<Rightarrow>
               (let s1 = flush_question s
                in Inr (s1\<lparr>sections := sections s1 @
                                [\<lparr>sec_id = n, sec_title = strip title, sec_questions = []\<rparr>],
                           cur_q := None\<rparr>)))
      | None \<Rightarrow>
          (case match_question line of
             Some (qid, title) \<Rightarrow>
               (let s1 = flush_question s
                in Inr (s1\<lparr>cur_q := Some \<lparr>q_id = qid, q_title = strip title, q_description = [],
                                          q_options = [], q_table = None, q_answers = [],
                                          q_sub_prompts = []\<rparr>,
                           collecting_answer := False, body_buf := [], answer_buf := []\<rparr>))
           | None \<Rightarrow>
               (if cur_q s = None then Inr s
                else if is_answer_marker line then
                  Inr ((if collecting_answer s then close_answer s else s)
                         \<lparr>collecting_answer := True\<rparr>)
                else if collecting_answer s then
                  (if strip line = ''---'' then
                     Inr ((close_answer s)\<lparr>collecting_answer := False\<rparr>)
                   else if is_sub_prompt line then
                     (let s1 = (close_answer s)\<lparr>collecting_answer := False\<rparr>
                      in Inr (s1\<lparr>cur_q := map_option
                                            (\<lambda>q. q\<lparr>q_sub_prompts := q_sub_prompts q @ [line]\<rparr>)
                                            (cur_q s1),
                                 body_buf := body_buf s1 @ [line]\<rparr>))
                   else Inr (s\<lparr>answer_buf := answer_buf s @ [line]\<rparr>))
                else Inr (s\<lparr>body_buf := body_buf s @ [line]\<rparr>))))"

fun parse_lines :: "pstate \<Rightarrow> string list \<Rightarrow> error + pstate" where
  "parse_lines s [] = Inr s"
| "parse_lines s (line # rest) =
     (case parse_line s line of Inl e \<Rightarrow> Inl e | Inr s' \<Rightarrow> parse_lines s' rest)"

definition init_pstate :: pstate where
  "init_pstate =
     \<lparr>sections = [], cur_q = None, answer_buf = [], body_buf = [], collecting_answer = False\<rparr>"

text \<open>\<^verbatim>\<open>parse_markdown\<close>, from the content of the file to the sections.\<close>

definition parse_markdown :: "string \<Rightarrow> error + qsection list" where
  "parse_markdown file =
     (case parse_lines init_pstate (file_lines file) of
        Inl e \<Rightarrow> Inl e
      | Inr s \<Rightarrow> Inr (sections (flush_question s)))"

section \<open>Slot extents\<close>

text \<open>
  The lines on which \<^verbatim>\<open>parse_markdown\<close>, while it collects an answer, does not reach
  \<^verbatim>\<open>answer_buf.append(line)\<close>: a section header, a question header, an answer marker, a
  divider and a sub-prompt, in the order of its tests.
\<close>

definition ends_slot :: "string \<Rightarrow> bool" where
  "ends_slot line =
     (match_section line \<noteq> None
      \<or> match_question line \<noteq> None
      \<or> is_answer_marker line
      \<or> strip line = ''---''
      \<or> is_sub_prompt line)"

text \<open>The lines that the rewriter's inner loop consumes from the lines after a marker, and the
  lines that the parser buffers from them.\<close>

definition skipped_span :: "string list \<Rightarrow> string list" where
  "skipped_span ls = take (length ls - length (skip_old ls)) ls"

definition buffered_span :: "string list \<Rightarrow> string list" where
  "buffered_span ls = takeWhile (\<lambda>l. \<not> ends_slot l) ls"

section \<open>The structure migrator: \<^verbatim>\<open>reorganize.py\<close>\<close>

text \<open>
  \<^verbatim>\<open>blocks\<close> is a Python dict from old question ids to \<^verbatim>\<open>{"title", "body"}\<close>. A dict keeps
  its keys in the order of their first insertion, and the order is read (by \<^verbatim>\<open>sorted\<close>,
  which is stable), so the model is an association list with distinct keys: \<open>dict_set\<close>
  is \<^verbatim>\<open>d[k] = v\<close>, \<open>map_of\<close> is the lookup.
\<close>

record block =
  blk_title :: string
  blk_body :: string

fun dict_set :: "'k \<Rightarrow> 'v \<Rightarrow> ('k \<times> 'v) list \<Rightarrow> ('k \<times> 'v) list" where
  "dict_set k v [] = [(k, v)]"
| "dict_set k v ((k', v') # d) = (if k' = k then (k, v) # d else (k', v') # dict_set k v d)"

subsection \<open>\<^verbatim>\<open>parse_raw\<close>\<close>

record rstate =
  blocks :: "(string \<times> block) list"
  cur_id :: "string option"
  lines :: "string list"

text \<open>\<^verbatim>\<open>^## \d+\.\<close>, and the \<^verbatim>\<open>while\<close> loop of \<^verbatim>\<open>flush\<close> that pops trailing blank and divider
  lines. When \<^verbatim>\<open>cur_id\<close> is set, the question header has put \<^verbatim>\<open>blocks[cur_id]\<close> there, so the
  lookup in \<^verbatim>\<open>flush\<close> cannot fail; the model has a branch for it that changes nothing.\<close>

definition is_section_start :: "string \<Rightarrow> bool" where
  "is_section_start raw =
     (startswith raw ''## '' \<and>
      (let r = drop 3 raw
       in takeWhile is_digit r \<noteq> [] \<and> startswith (dropWhile is_digit r) ''.''))"

definition pop_trailing :: "string list \<Rightarrow> string list" where
  "pop_trailing ls = rev (dropWhile (\<lambda>l. strip l = [] \<or> strip l = ''---'') (rev ls))"

definition flush :: "rstate \<Rightarrow> rstate" where
  "flush s =
     (case cur_id s of
        None \<Rightarrow> s
      | Some i \<Rightarrow>
          (case map_of (blocks s) i of
             None \<Rightarrow> s
           | Some b \<Rightarrow>
               s\<lparr>blocks := dict_set i (b\<lparr>blk_body := join [newline] (pop_trailing (lines s))\<rparr>) (blocks s),
                 cur_id := None, lines := []\<rparr>))"

definition raw_line :: "rstate \<Rightarrow> string \<Rightarrow> rstate" where
  "raw_line s raw =
     (case match_question raw of
        Some (qid, title) \<Rightarrow>
          (let s1 = flush s
           in s1\<lparr>cur_id := Some qid,
                 blocks := dict_set qid \<lparr>blk_title = strip title, blk_body = []\<rparr> (blocks s1),
                 lines := []\<rparr>)
      | None \<Rightarrow>
          (if is_section_start raw then flush s
           else if cur_id s \<noteq> None then s\<lparr>lines := lines s @ [raw]\<rparr>
           else s))"

definition parse_raw :: "string \<Rightarrow> (string \<times> block) list" where
  "parse_raw txt =
     blocks (flush (foldl raw_line \<lparr>blocks = [], cur_id = None, lines = []\<rparr> (split newline txt)))"

subsection \<open>The plan\<close>

definition STRUCTURE :: "(string \<times> string list) list" where
  "STRUCTURE =
    [
     (''MVP Scope & Implementation Order'',
      [''1.1'', ''1.2'', ''1.3'']),
     (''Performance & Hardware Targets'',
      [''36.1'', ''36.2'', ''36.3'', ''36.4'', ''36.5'']),
     (''Licensing & Legal'',
      [''73.1'', ''73.2'']),
     (''Cryptography, Keys & Addresses'',
      [''2.1'', ''56.1'', ''56.2'', ''56.3'', ''2.2'', ''56.4'', ''2.3'', ''56.5'',
       ''56.6'']),
     (''BRN Engine'',
      [''3.1'', ''3.2'', ''3.3'', ''3.4'', ''18.1'', ''18.2'', ''18.3'', ''18.4'',
       ''18.5'', ''48.1'', ''48.2'', ''67.1'']),
     (''TRST Lifecycle & Merger Graph'',
      [''4.1'', ''4.2'', ''4.3'', ''4.4'', ''4.5'', ''17.1'', ''17.2'', ''17.3'',
       ''17.4'', ''17.5'', ''17.6'', ''17.7'', ''17.8'', ''17.9'', ''17.10'', ''17.11'',
       ''17.12'', ''67.2'']),
     (''TRST Revocation'',
      [''47.1'', ''47.2'', ''47.3'', ''47.4'']),
     (''Transaction Architecture'',
      [''5.1'', ''5.2'', ''5.3'', ''5.4'', ''32.1'', ''32.2'', ''32.3'']),
     (''Block Format & Versioning'',
      [''6.1'', ''30.1'', ''30.2'', ''30.3'', ''57.1'', ''57.2'', ''57.3'', ''57.4'',
       ''67.3'', ''67.4'']),
     (''DAG Ledger'',
      [''6.2'', ''6.3'', ''23.1'', ''23.2'', ''23.3'', ''23.4'', ''23.5'']),
     (''Snapshots & Fast Sync'',
      [''46.1'', ''46.2'', ''46.3'']),
     (''ORV Consensus & Elections'',
      [''7.1'', ''7.2'', ''7.3'', ''35.1'', ''35.2'', ''35.3'', ''35.4'', ''35.5'',
       ''35.6'', ''60.1'', ''60.2'', ''60.3'', ''60.4'', ''69.1'', ''69.2'', ''69.3'',
       ''69.4'']),
     (''Representatives'',
      [''62.1'', ''62.2'', ''62.3'', ''62.4'']),
     (''Proof of Work & Anti-Spam'',
      [''10.1'', ''10.2'', ''24.1'', ''24.2'', ''24.3'', ''61.1'', ''61.2'', ''61.3'',
       ''70.1'', ''70.2'', ''70.3'']),
     (''Verification System'',
      [''8.1'', ''8.2'', ''8.3'', ''19.1'', ''19.2'', ''19.3'', ''19.4'', ''19.5'',
       ''19.6'', ''19.7'', ''19.8'', ''19.9'', ''19.10'', ''68.1'', ''68.2'', ''68.3'',
       ''68.4'', ''68.5'']),
     (''Endorsements'',
      [''45.1'', ''45.2'', ''45.3'', ''27.1'', ''27.2'', ''27.3'']),
     (''Challenges'',
      [''44.1'', ''44.2'', ''44.3'', ''44.4'', ''44.5'', ''27.4'', ''27.5'', ''27.6'']),
     (''Verifier Reputation'',
      [''43.1'', ''43.2'', ''43.3'']),
     (''VRF & Randomness'',
      [''9.1'', ''9.2'', ''71.1'', ''71.2'']),
     (''Governance'',
      [''11.1'', ''11.2'', ''20.1'', ''20.2'', ''20.3'', ''20.4'', ''20.5'', ''20.6'',
       ''20.7'', ''52.1'', ''52.2'', ''52.3'']),
     (''Constitution (Consti)'',
      [''21.1'', ''21.2'', ''21.3'', ''21.4'', ''72.1'', ''72.2'', ''72.3'', ''72.4'']),
     (''Group Trust Layer'',
      [''26.1'', ''26.2'', ''26.3'', ''26.4'', ''26.5'']),
     (''P2P Networking'',
      [''12.1'', ''12.2'', ''12.3'', ''22.1'', ''22.2'', ''22.3'', ''22.4'', ''22.5'',
       ''22.6'', ''22.7'', ''59.1'', ''59.2'', ''59.3'', ''59.4'', ''59.5'', ''59.6'',
       ''59.7'']),
     (''Storage, LMDB & Indexing'',
      [''13.1'', ''13.2'', ''41.1'', ''41.2'', ''41.3'', ''41.4'']),
     (''Node Operations'',
      [''29.1'', ''29.2'', ''29.3'', ''29.4'', ''58.1'', ''58.2'', ''58.3'', ''58.4'',
       ''15.1'', ''54.1'', ''54.2'', ''54.3'']),
     (''Error Handling & Recovery'',
      [''33.1'', ''33.2'', ''33.3'', ''33.4'', ''33.5'']),
     (''Bootstrapping & Network Launch'',
      [''34.1'', ''34.2'', ''34.3'', ''34.4'', ''34.5'']),
     (''RPC API'',
      [''37.1'', ''37.2'', ''37.3'', ''37.4'', ''37.5'']),
     (''WebSocket API'',
      [''38.1'', ''38.2'', ''38.3'']),
     (''Block Explorer & Tooling'',
      [''65.1'', ''65.2'', ''65.3'']),
     (''Wallet'',
      [''14.1'', ''14.2'', ''25.1'', ''25.2'', ''25.3'', ''25.4'', ''39.1'', ''39.2'',
       ''40.1'', ''40.2'', ''49.1'', ''49.2'', ''49.3'']),
     (''Display & UX'',
      [''31.1'', ''31.2'', ''31.3'', ''31.4'', ''31.5'', ''31.6'', ''42.1'', ''42.2'']),
     (''Economics, Incentives & Privacy'',
      [''28.1'', ''28.2'', ''28.3'', ''28.4'', ''50.1'', ''50.2'', ''50.3'', ''50.4'',
       ''51.1'', ''51.2'', ''51.3'', ''51.4'', ''53.1'', ''53.2'']),
     (''Build, Test & Deploy'',
      [''15.2'', ''63.1'', ''63.2'', ''63.3'', ''63.4'', ''63.5'', ''15.3'', ''15.4'',
       ''64.1'', ''64.2'', ''64.3'', ''64.4'', ''64.5'', ''55.1'', ''55.2'', ''55.3'']),
     (''Catastrophic Scenarios'',
      [''74.1'', ''74.2'', ''74.3'', ''74.4'']),
     (''Open Design Questions'',
      [''16.2'', ''16.3'', ''16.4'']),
     (''Comprehensive Parameter Defaults'',
      [''66.1''])
    ]"

definition REMOVED :: "string set" where
  "REMOVED = {''16.1''}"

subsection \<open>\<^verbatim>\<open>generate\<close>\<close>

text \<open>
  \<^verbatim>\<open>generate\<close> reads the plan and the removed ids from the module constants; here they are
  parameters of \<open>generate_plan\<close>, and \<open>generate\<close> passes the constants. \<^verbatim>\<open>print\<close> appends to
  a log, which is returned with the text.

  The sort key \<^verbatim>\<open>(int(x.split(".")[0]), int(x.split(".")[1]))\<close> of an id. \<open>py_int\<close> is
  \<^verbatim>\<open>int\<close> on runs of digits, which is what the ids of \<^verbatim>\<open>parse_raw\<close> are made of; it
  raises on a run of more than 4300 digits.
\<close>

definition id_key :: "string \<Rightarrow> error + nat \<times> nat" where
  "id_key x =
     (case split (CHR ''.'') x of
        [] \<Rightarrow> Inl IndexError
      | a # r \<Rightarrow>
          (case py_int a of
             None \<Rightarrow> Inl ValueError
           | Some m \<Rightarrow>
               (case r of
                  [] \<Rightarrow> Inl IndexError
                | b # _ \<Rightarrow> (case py_int b of None \<Rightarrow> Inl ValueError | Some n \<Rightarrow> Inr (m, n)))))"

text \<open>\<^verbatim>\<open>sorted(blocks.keys(), key=...)\<close>: the keys are computed first, in order, and the first
  one that raises ends the call.\<close>

fun keyed :: "string list \<Rightarrow> error + ((nat \<times> nat) \<times> string) list" where
  "keyed [] = Inr []"
| "keyed (x # xs) =
     (case id_key x of
        Inl e \<Rightarrow> Inl e
      | Inr k \<Rightarrow> (case keyed xs of Inl e \<Rightarrow> Inl e | Inr ks \<Rightarrow> Inr ((k, x) # ks)))"

definition sorted_ids :: "string list \<Rightarrow> error + string list" where
  "sorted_ids xs = (case keyed xs of Inl e \<Rightarrow> Inl e | Inr ks \<Rightarrow> Inr (map snd (sort_key fst ks)))"

text \<open>An id all of whose numbers \<^verbatim>\<open>int\<close> converts.\<close>

definition id_fits :: "string \<Rightarrow> bool" where
  "id_fits x = list_all (\<lambda>p. length p \<le> int_max_str_digits) (split (CHR ''.'') x)"

definition warning_line :: "string \<Rightarrow> string \<Rightarrow> string" where
  "warning_line old_id title = ''  WARNING: question '' @ old_id @ '' ('' @ title @ '') is not mapped!''"

definition error_line :: "string \<Rightarrow> string" where
  "error_line old_id = ''  ERROR: '' @ old_id @ '' not found in source!''"

definition section_header :: "nat \<Rightarrow> string \<Rightarrow> string" where
  "section_header sec_idx stitle = ''## '' @ str_nat sec_idx @ ''. '' @ stitle"

definition question_header :: "nat \<Rightarrow> nat \<Rightarrow> string \<Rightarrow> string" where
  "question_header sec_idx q_idx title =
     ''### '' @ str_nat sec_idx @ ''.'' @ str_nat q_idx @ '' '' @ title"

text \<open>The loop that warns about unmapped questions; the state is the log. The ids come from
  \<^verbatim>\<open>blocks.keys()\<close>, so \<^verbatim>\<open>blocks[old_id]\<close> is always there; the model has a branch for a
  missing id that prints nothing.\<close>

fun warn_unmapped ::
  "(string \<times> block) list \<Rightarrow> string set \<Rightarrow> string set \<Rightarrow> string list \<Rightarrow> string list \<Rightarrow> string list"
where
  "warn_unmapped blks all_mapped removed [] log = log"
| "warn_unmapped blks all_mapped removed (old_id # rest) log =
     warn_unmapped blks all_mapped removed rest
       (if old_id \<notin> all_mapped \<and> old_id \<notin> removed
        then (case map_of blks old_id of
                Some b \<Rightarrow> log @ [warning_line old_id (blk_title b)]
              | None \<Rightarrow> log)
        else log)"

text \<open>The inner loop over \<^verbatim>\<open>enumerate(qids, 1)\<close> and the outer loop over
  \<^verbatim>\<open>enumerate(STRUCTURE, 1)\<close>; the state is \<^verbatim>\<open>out\<close> and the log.\<close>

fun gen_questions ::
  "(string \<times> block) list \<Rightarrow> nat \<Rightarrow> nat \<Rightarrow> string list \<Rightarrow> string list \<times> string list
     \<Rightarrow> string list \<times> string list"
where
  "gen_questions blks sec_idx q_idx [] st = st"
| "gen_questions blks sec_idx q_idx (old_id # rest) (out, log) =
     (case map_of blks old_id of
        None \<Rightarrow> gen_questions blks sec_idx (q_idx + 1) rest (out, log @ [error_line old_id])
      | Some b \<Rightarrow>
          gen_questions blks sec_idx (q_idx + 1) rest
            (out @ [question_header sec_idx q_idx (blk_title b), blk_body b, []], log))"

fun gen_sections ::
  "(string \<times> block) list \<Rightarrow> nat \<Rightarrow> (string \<times> string list) list \<Rightarrow> string list \<times> string list
     \<Rightarrow> string list \<times> string list"
where
  "gen_sections blks sec_idx [] st = st"
| "gen_sections blks sec_idx ((stitle, qids) # rest) (out, log) =
     gen_sections blks (sec_idx + 1) rest
       (gen_questions blks sec_idx 1 qids
          (out @ [''---'', [], section_header sec_idx stitle, []], log))"

definition preamble :: "string list" where
  "preamble =
     [''# BURST Implementation Decisions'',
      [],
      ''Fill in your answers below each question. Where a default is suggested ''
        @ ''in **bold**, you can just write \"default\" or leave blank to accept it.'',
      []]"

definition closing :: "string list" where
  "closing =
     [''---'',
      [],
      ''**Instructions**: Write your answer below each question, or write ''
        @ ''\"default\" to accept the bolded suggestion. If you disagree with any ''
        @ ''of my suggested defaults, just override them. Leave blank = accept default.'',
      [],
      ''When you're done, tell me and I'll start implementing.'',
      []]"

definition generate_plan ::
  "(string \<times> string list) list \<Rightarrow> string set \<Rightarrow> (string \<times> block) list
     \<Rightarrow> error + string list \<times> string"
where
  "generate_plan plan removed blks =
     (let all_mapped = set (concat (map snd plan))
      in case sorted_ids (map fst blks) of
           Inl e \<Rightarrow> Inl e
         | Inr ids \<Rightarrow>
             (let log = warn_unmapped blks all_mapped removed ids [];
                  (out, log') = gen_sections blks 1 plan (preamble, log)
              in Inr (log', join [newline] (out @ closing))))"

definition generate :: "(string \<times> block) list \<Rightarrow> error + string list \<times> string" where
  "generate blks = generate_plan STRUCTURE REMOVED blks"

text \<open>\<^verbatim>\<open>main\<close> without its own progress messages, from the content of the source file: the
  text that is written to the file, and what \<^verbatim>\<open>generate\<close> printed.\<close>

definition migrate ::
  "(string \<times> string list) list \<Rightarrow> string set \<Rightarrow> string \<Rightarrow> error + string list \<times> string"
where
  "migrate plan removed file = generate_plan plan removed (parse_raw (read_text file))"

subsection \<open>What \<^verbatim>\<open>generate\<close> emits\<close>

text \<open>
  \<open>emitted blks q_idx qids\<close>: the pairs of \<^verbatim>\<open>q_idx\<close> and block for which the inner loop of
  \<^verbatim>\<open>generate\<close> reaches its \<^verbatim>\<open>out.append\<close> calls, \<open>q_idx\<close> being the index of the first id of
  \<open>qids\<close>. \<open>question_part\<close> and \<open>section_part\<close> are the lines appended for one such pair and
  for one plan entry with its index.
\<close>

fun emitted :: "(string \<times> block) list \<Rightarrow> nat \<Rightarrow> string list \<Rightarrow> (nat \<times> block) list" where
  "emitted blks q_idx [] = []"
| "emitted blks q_idx (old_id # rest) =
     (case map_of blks old_id of
        None \<Rightarrow> emitted blks (q_idx + 1) rest
      | Some b \<Rightarrow> (q_idx, b) # emitted blks (q_idx + 1) rest)"

definition question_part :: "nat \<Rightarrow> nat \<times> block \<Rightarrow> string list" where
  "question_part sec_idx jb = [question_header sec_idx (fst jb) (blk_title (snd jb)), blk_body (snd jb), []]"

definition section_part :: "(string \<times> block) list \<Rightarrow> nat \<times> string \<times> string list \<Rightarrow> string list" where
  "section_part blks e =
     [''---'', [], section_header (fst e) (fst (snd e)), []]
       @ concat (map (question_part (fst e)) (emitted blks 1 (snd (snd e))))"

text \<open>A small source document for the examples.\<close>

definition example_source :: string where
  "example_source =
     ''## 1. A'' @ [newline] @ ''### 1.1 First'' @ [newline] @ ''body a'' @ [newline] @ [newline]
     @ ''---'' @ [newline] @ [newline] @ ''### 1.2 Second'' @ [newline] @ ''b2'' @ [newline]
     @ ''## 7. B'' @ [newline] @ ''### 7.4 Third'' @ [newline] @ ''b3''"

section \<open>Headers and answer markers of a document\<close>

text \<open>
  A header line is a line at which \<^verbatim>\<open>parse_markdown\<close> starts a section or a question.
  \<open>nmarkers ls\<close> counts the answer-marker lines of \<open>ls\<close> before its first header line, and
  \<open>marker_counts\<close> lists, for every question header of a document that comes after a section
  header, the question's id with the number of answer markers between that header and the
  next header or the end of the input. \<open>answer_counts\<close> reads the same pairs off a parsed
  document.
\<close>

definition is_header :: "string \<Rightarrow> bool" where
  "is_header line = (match_section line \<noteq> None \<or> match_question line \<noteq> None)"

text \<open>A line whose section number, if it is a section header, is one that \<^verbatim>\<open>int\<close> converts.\<close>

definition int_fits :: "string \<Rightarrow> bool" where
  "int_fits line =
     (case match_section line of
        Some (num, title) \<Rightarrow> length num \<le> int_max_str_digits
      | None \<Rightarrow> True)"

definition nmarkers :: "string list \<Rightarrow> nat" where
  "nmarkers ls = length (filter is_answer_marker (takeWhile (\<lambda>l. \<not> is_header l) ls))"

fun marker_counts :: "bool \<Rightarrow> string list \<Rightarrow> (string \<times> nat) list" where
  "marker_counts in_section [] = []"
| "marker_counts in_section (line # rest) =
     (if match_section line \<noteq> None then marker_counts True rest
      else (case match_question line of
              Some (qid, title) \<Rightarrow>
                (if in_section then [(qid, nmarkers rest)] else []) @ marker_counts in_section rest
            | None \<Rightarrow> marker_counts in_section rest))"

definition answer_counts :: "qsection list \<Rightarrow> (string \<times> nat) list" where
  "answer_counts doc = map (\<lambda>q. (q_id q, length (q_answers q))) (concat (map sec_questions doc))"

section \<open>Parsing and rewriting in turn\<close>

text \<open>
  What the parser records as answers, read off the lines: \<open>block_answers\<close> takes the lines
  after a question header and gives, for every answer marker before the next header, the
  stripped text of the lines that the parser buffers after it (\<open>after_span\<close> is what is
  left after those lines). \<open>question_answers\<close> pairs every question header that follows a
  section header with the answers of its block, and \<open>doc_answers\<close> reads the same pairs off
  a parsed document.
\<close>

definition after_span :: "string list \<Rightarrow> string list" where
  "after_span ls = dropWhile (\<lambda>l. \<not> ends_slot l) ls"

lemma length_after_span: "length (after_span ls) \<le> length ls"
  by (simp add: after_span_def length_dropWhile_le)

function block_answers :: "string list \<Rightarrow> string list" where
  "block_answers [] = []"
| "block_answers (line # rest) =
     (if is_header line then []
      else if is_answer_marker line
      then strip (join [newline] (buffered_span rest)) # block_answers (after_span rest)
      else block_answers rest)"
  by pat_completeness auto
termination
proof (relation "measure length")
  show "wf (measure length)" by simp
next
  fix line :: string and rest :: "string list"
  show "(after_span rest, line # rest) \<in> measure length"
    using length_after_span [of rest] by simp
next
  fix line :: string and rest :: "string list"
  show "(rest, line # rest) \<in> measure length" by simp
qed

fun question_answers :: "bool \<Rightarrow> string list \<Rightarrow> (string \<times> string list) list" where
  "question_answers in_section [] = []"
| "question_answers in_section (line # rest) =
     (if match_section line \<noteq> None then question_answers True rest
      else (case match_question line of
              Some (qid, title) \<Rightarrow>
                (if in_section then [(qid, block_answers rest)] else [])
                  @ question_answers in_section rest
            | None \<Rightarrow> question_answers in_section rest))"

definition doc_answers :: "qsection list \<Rightarrow> (string \<times> string list) list" where
  "doc_answers doc = map (\<lambda>q. (q_id q, q_answers q)) (concat (map sec_questions doc))"

text \<open>The key \<^verbatim>\<open>"<questionId>_<slotIndex>"\<close> of an answer.\<close>

definition slot_name :: "string \<Rightarrow> nat \<Rightarrow> string" where
  "slot_name qid i = qid @ ''_'' @ str_nat i"

text \<open>
  Conditions on a document under which the two passes see the same slots:
  \<open>slots_agree\<close>: after every answer marker the rewriter skips exactly the lines that the
  parser buffers; \<open>markers_owned\<close>: every question header comes after a section header, and
  every answer marker after a question header with no section header in between.
\<close>

fun slots_agree :: "string list \<Rightarrow> bool" where
  "slots_agree [] = True"
| "slots_agree (line # rest) =
     ((is_answer_marker line \<longrightarrow> skipped_span rest = buffered_span rest) \<and> slots_agree rest)"

fun markers_owned :: "bool \<Rightarrow> bool \<Rightarrow> string list \<Rightarrow> bool" where
  "markers_owned in_section in_question [] = True"
| "markers_owned in_section in_question (line # rest) =
     (if match_section line \<noteq> None then markers_owned True False rest
      else if match_question line \<noteq> None then in_section \<and> markers_owned in_section True rest
      else if is_answer_marker line then in_question \<and> markers_owned in_section in_question rest
      else markers_owned in_section in_question rest)"

text \<open>
  \<open>trimmed\<close>: the lines of a document with the content of every slot replaced by its text
  stripped of white space at both ends (nothing if that is empty) and one empty line.
  \<open>padded\<close>: the lines of a document with one empty line added after the content of every
  slot. \<open>tidy_slots\<close>: the content of every slot is empty, or its text is not empty and
  has no white space at either end.
\<close>

function trimmed :: "string list \<Rightarrow> string list" where
  "trimmed [] = []"
| "trimmed (line # rest) =
     (if is_answer_marker line
      then line # (let c = strip (join [newline] (skipped_span rest))
                   in if c = [] then [[]] else [c, []]) @ trimmed (skip_old rest)
      else line # trimmed rest)"
  by pat_completeness auto
termination
proof (relation "measure length")
  show "wf (measure length)" by simp
next
  fix line :: string and rest :: "string list"
  show "(skip_old rest, line # rest) \<in> measure length"
    using length_skip_old [of rest] by simp
next
  fix line :: string and rest :: "string list"
  show "(rest, line # rest) \<in> measure length" by simp
qed

function padded :: "string list \<Rightarrow> string list" where
  "padded [] = []"
| "padded (line # rest) =
     (if is_answer_marker line
      then line # skipped_span rest @ [[]] @ padded (skip_old rest)
      else line # padded rest)"
  by pat_completeness auto
termination
proof (relation "measure length")
  show "wf (measure length)" by simp
next
  fix line :: string and rest :: "string list"
  show "(skip_old rest, line # rest) \<in> measure length"
    using length_skip_old [of rest] by simp
next
  fix line :: string and rest :: "string list"
  show "(rest, line # rest) \<in> measure length" by simp
qed

fun tidy_slots :: "string list \<Rightarrow> bool" where
  "tidy_slots [] = True"
| "tidy_slots (line # rest) =
     ((is_answer_marker line \<longrightarrow>
         (let c = join [newline] (skipped_span rest)
          in skipped_span rest = [] \<or> (c \<noteq> [] \<and> strip c = c)))
      \<and> tidy_slots rest)"

text \<open>A small questionnaire for the examples.\<close>

definition example_doc :: string where
  "example_doc =
     ''## 1. S'' @ [newline] @ ''### 1.1 Q'' @ [newline] @ ''Pick one.'' @ [newline]
     @ ''Your answer:'' @ [newline] @ ''yes'' @ [newline] @ ''indeed'' @ [newline] @ ''---'' @ [newline]
     @ ''### 1.2 R'' @ [newline] @ ''Your answer:'' @ [newline] @ ''---''"

section \<open>The questions of a document\<close>

text \<open>
  What the parser makes of a question, read off the lines that follow its header.
  \<open>body_lines\<close> gives the lines that reach the body buffer: every line before the first
  answer marker and, from then on, the sub-prompt lines that end an answer and the lines
  after a divider or a sub-prompt, up to the next answer marker; the lines of an answer,
  the answer markers and the divider that ends an answer are not among them. The flag tells
  whether an answer is being collected. \<open>sub_lines\<close> gives the sub-prompt lines that end an
  answer. Both stop at the next header.
\<close>

fun body_lines :: "bool \<Rightarrow> string list \<Rightarrow> string list" where
  "body_lines collecting [] = []"
| "body_lines collecting (line # rest) =
     (if is_header line then []
      else if is_answer_marker line then body_lines True rest
      else if collecting then
        (if strip line = ''---'' then body_lines False rest
         else if is_sub_prompt line then line # body_lines False rest
         else body_lines True rest)
      else line # body_lines False rest)"

fun sub_lines :: "bool \<Rightarrow> string list \<Rightarrow> string list" where
  "sub_lines collecting [] = []"
| "sub_lines collecting (line # rest) =
     (if is_header line then []
      else if is_answer_marker line then sub_lines True rest
      else if collecting then
        (if strip line = ''---'' then sub_lines False rest
         else if is_sub_prompt line then line # sub_lines False rest
         else sub_lines True rest)
      else sub_lines False rest)"

text \<open>
  \<open>question_blocks\<close> lists the question headers that follow a section header, each with its
  id, its title and the lines after it; \<open>question_of\<close> is the question that such a header and
  its lines make, and \<open>doc_questions\<close> lists the questions of a parsed document in order.
\<close>

fun question_blocks :: "bool \<Rightarrow> string list \<Rightarrow> (string \<times> string \<times> string list) list" where
  "question_blocks in_section [] = []"
| "question_blocks in_section (line # rest) =
     (if match_section line \<noteq> None then question_blocks True rest
      else (case match_question line of
              Some (qid, title) \<Rightarrow>
                (if in_section then [(qid, title, rest)] else []) @ question_blocks in_section rest
            | None \<Rightarrow> question_blocks in_section rest))"

definition question_of :: "string \<times> string \<times> string list \<Rightarrow> question" where
  "question_of b =
     (case b of (qid, title, rest) \<Rightarrow>
        process_body
          \<lparr>q_id = qid, q_title = strip title, q_description = [], q_options = [], q_table = None,
           q_answers = block_answers rest, q_sub_prompts = sub_lines False rest\<rparr>
          (body_lines False rest))"

definition doc_questions :: "qsection list \<Rightarrow> question list" where
  "doc_questions doc = concat (map sec_questions doc)"

section \<open>What a rewrite may change\<close>


section \<open>Basic facts\<close>

lemma startswith_simps [simp]:
  "startswith s []"
  "\<not> startswith [] (c # p)"
  "startswith (x # xs) (c # p) = (x = c \<and> startswith xs p)"
  by (auto simp: startswith_def)

lemma save_loop_acc_all: "\<forall>res. save_loop a q i ls res = res @ save_loop a q i ls []"
proof (induction a q i ls "d :: string list" rule: save_loop.induct)
  case (1 answers cur_qid answer_idx result)
  then show ?case by (simp add: save_loop.simps)
next
  case (2 answers cur_qid answer_idx line rest result)
  define q' where "q' = (case match_qid line of Some q \<Rightarrow> Some q | None \<Rightarrow> cur_qid)"
  define i' where "i' = (case match_qid line of Some q \<Rightarrow> 0 | None \<Rightarrow> answer_idx)"
  show ?case
  proof (cases "is_answer_marker line")
    case True
    define X where "X = [line] @ new_slot answers (slot_key q' i')"
    have a: "save_loop answers q' (i' + 1) (skip_old rest) r
        = r @ save_loop answers q' (i' + 1) (skip_old rest) []" for r
      using 2(1)[OF q'_def i'_def True] by blast
    have step: "save_loop answers cur_qid answer_idx (line # rest) r
        = save_loop answers q' (i' + 1) (skip_old rest) (r @ X)" for r
      by (simp add: save_loop.simps(2) q'_def i'_def X_def Let_def True)
    show ?thesis
    proof
      fix res
      have "save_loop answers cur_qid answer_idx (line # rest) res
          = (res @ X) @ save_loop answers q' (i' + 1) (skip_old rest) []"
        using step [of res] a [of "res @ X"] by simp
      moreover have "save_loop answers cur_qid answer_idx (line # rest) []
          = X @ save_loop answers q' (i' + 1) (skip_old rest) []"
        using step [of "[]"] a [of "X"] by simp
      ultimately show "save_loop answers cur_qid answer_idx (line # rest) res
          = res @ save_loop answers cur_qid answer_idx (line # rest) []"
        by simp
    qed
  next
    case False
    have a: "save_loop answers q' i' rest r = r @ save_loop answers q' i' rest []" for r
      using 2(2)[OF q'_def i'_def False] by blast
    have step: "save_loop answers cur_qid answer_idx (line # rest) r
        = save_loop answers q' i' rest (r @ [line])" for r
      by (simp add: save_loop.simps(2) q'_def i'_def Let_def False)
    show ?thesis
    proof
      fix res
      have "save_loop answers cur_qid answer_idx (line # rest) res
          = (res @ [line]) @ save_loop answers q' i' rest []"
        using step [of res] a [of "res @ [line]"] by simp
      moreover have "save_loop answers cur_qid answer_idx (line # rest) []
          = [line] @ save_loop answers q' i' rest []"
        using step [of "[]"] a [of "[line]"] by simp
      ultimately show "save_loop answers cur_qid answer_idx (line # rest) res
          = res @ save_loop answers cur_qid answer_idx (line # rest) []"
        by simp
    qed
  qed
qed

lemma save_loop_acc: "save_loop a q i ls res = res @ save_loop a q i ls []"
  using save_loop_acc_all by blast

lemma marker_not_qid: "is_answer_marker l \<Longrightarrow> match_qid l = None"
  by (cases l) (auto simp: is_answer_marker_def match_qid_def)


lemma save_loop_Nil [simp]: "save_loop a q i [] res = res"
  by (simp add: save_loop.simps)

lemma save_loop_marker:
  "is_answer_marker l \<Longrightarrow>
   save_loop a q i (l # rest) res =
     save_loop a q (Suc i) (skip_old rest) (res @ [l] @ new_slot a (slot_key q i))"
  by (simp add: save_loop.simps(2) marker_not_qid)

lemma save_loop_plain:
  "\<not> is_answer_marker l \<Longrightarrow>
   save_loop a q i (l # rest) res =
     save_loop a (case match_qid l of Some x \<Rightarrow> Some x | None \<Rightarrow> q)
       (case match_qid l of Some x \<Rightarrow> 0 | None \<Rightarrow> i) rest (res @ [l])"
  by (simp add: save_loop.simps(2) Let_def)


lemma py_int_digits:
  "d \<noteq> [] \<Longrightarrow> list_all is_digit d \<Longrightarrow> (py_int d \<noteq> None) = (length d \<le> int_max_str_digits)"
  by (simp add: py_int_def)

lemma match_section_digits:
  "match_section l = Some (d, t) \<Longrightarrow> (py_int d \<noteq> None) = (length d \<le> int_max_str_digits)"
proof -
  assume "match_section l = Some (d, t)"
  then have "d \<noteq> []" "list_all is_digit d"
    by (auto simp: match_section_def Let_def list_all_iff split: if_splits dest: set_takeWhileD)
  then show ?thesis by (rule py_int_digits)
qed

lemma parse_line_total: "int_fits l \<Longrightarrow> \<exists>s'. parse_line s l = Inr s'"
  using match_section_digits [of l]
  by (auto simp: parse_line_def int_fits_def Let_def split: option.splits)

lemma parse_line_error: "\<not> int_fits l \<Longrightarrow> parse_line s l = Inl ValueError"
  using match_section_digits [of l]
  by (auto simp: parse_line_def int_fits_def Let_def split: option.splits)

lemma parse_line_fits: "parse_line s l = Inr s' \<Longrightarrow> int_fits l"
  using parse_line_error [of l s] by auto

lemma parse_line_section:
  "parse_line s l = Inr s' \<Longrightarrow> match_section l = Some (d, t) \<Longrightarrow> \<exists>n. py_int d = Some n"
  by (auto simp: parse_line_def split: option.splits)

lemma parse_line_buffers:
  assumes "cur_q s \<noteq> None" "collecting_answer s" "\<not> ends_slot l"
  shows "parse_line s l = Inr (s\<lparr>answer_buf := answer_buf s @ [l]\<rparr>)"
  using assms by (auto simp: parse_line_def ends_slot_def split: option.splits)

lemma parse_line_closes:
  assumes "cur_q s \<noteq> None" "collecting_answer s" "ends_slot l" "int_fits l"
  shows "\<exists>s'. parse_line s l = Inr s' \<and> answer_buf s' = []"
proof -
  have "answer_buf (flush_question s) = []"
    using assms(1,2) by (auto simp: flush_question_def close_answer_def Let_def split: option.splits)
  then show ?thesis
    using assms match_section_digits [of l]
    by (auto simp: parse_line_def ends_slot_def int_fits_def Let_def close_answer_def
        split: option.splits)
qed

lemma parse_lines_buffers:
  assumes "cur_q s \<noteq> None" "collecting_answer s" "\<forall>l\<in>set ls. \<not> ends_slot l"
  shows "parse_lines s ls = Inr (s\<lparr>answer_buf := answer_buf s @ ls\<rparr>)"
  using assms
proof (induction ls arbitrary: s)
  case Nil
  then show ?case by simp
next
  case (Cons l ls)
  have "parse_line s l = Inr (s\<lparr>answer_buf := answer_buf s @ [l]\<rparr>)"
    using Cons.prems by (simp add: parse_line_buffers)
  moreover have "parse_lines (s\<lparr>answer_buf := answer_buf s @ [l]\<rparr>) ls
      = Inr (s\<lparr>answer_buf := answer_buf s @ [l]\<rparr>\<lparr>answer_buf := answer_buf (s\<lparr>answer_buf := answer_buf s @ [l]\<rparr>) @ ls\<rparr>)"
    using Cons.prems by (intro Cons.IH) auto
  ultimately show ?case by simp
qed

lemma ends_slot_boundary:
  "ends_slot l \<Longrightarrow> is_boundary l \<or> (strip l = ''---'' \<and> \<not> startswith l ''---'')"
  by (auto simp: ends_slot_def is_boundary_def match_section_def match_question_def
      is_sub_prompt_def is_if_prefix_def split: if_splits list.splits)

lemma skip_old_dropWhile: "skip_old ls = dropWhile (\<lambda>l. \<not> is_boundary l) ls"
  by (induction ls) auto

lemma skipped_span_takeWhile: "skipped_span ls = takeWhile (\<lambda>l. \<not> is_boundary l) ls"
proof -
  have "length (takeWhile (\<lambda>l. \<not> is_boundary l) ls) + length (dropWhile (\<lambda>l. \<not> is_boundary l) ls)
      = length ls"
    by (metis length_append takeWhile_dropWhile_id)
  then have "length ls - length (dropWhile (\<lambda>l. \<not> is_boundary l) ls)
      = length (takeWhile (\<lambda>l. \<not> is_boundary l) ls)"
    by arith
  then show ?thesis
    by (simp add: skipped_span_def skip_old_dropWhile takeWhile_eq_take [symmetric])
qed

lemma takeWhile_prefix_mono:
  "\<forall>x\<in>set xs. P x \<longrightarrow> Q x \<Longrightarrow> prefix (takeWhile P xs) (takeWhile Q xs)"
  by (induction xs) auto

lemma split_nonempty [simp]: "split c s \<noteq> []"
  by (induction s) (auto split: list.splits)


lemma split_free: "c \<notin> set l \<Longrightarrow> split c l = [l]"
  by (induction l) auto

lemma split_append_sep: "split c (x @ c # y) = split c x @ split c y"
proof (induction x)
  case Nil
  then show ?case by simp
next
  case (Cons a x)
  obtain w ws where "split c x = w # ws"
    using split_nonempty [of c x] by (cases "split c x") auto
  then show ?case using Cons by simp
qed

lemma join_Cons: "xs \<noteq> [] \<Longrightarrow> join sep (x # xs) = x @ sep @ join sep xs"
  by (cases xs) auto





lemma not_boundary_empty [simp]: "\<not> is_boundary []"
  by (simp add: is_boundary_def is_if_prefix_def is_answer_marker_def startswith_def)







lemma read_text_id: "carriage_return \<notin> set s \<Longrightarrow> read_text s = s"
  by (induction s rule: read_text.induct) auto




lemma file_lines_nonempty [simp]: "file_lines txt \<noteq> []"
  by (simp add: file_lines_def)

lemma file_lines_id: "carriage_return \<notin> set txt \<Longrightarrow> file_lines txt = split newline txt"
  by (simp add: file_lines_def read_text_id)





section \<open>Facts about the parser\<close>

lemma options_body_line:
  "map opt_default (options (body_line b l)) =
     map opt_default (options b) @
       (if match_default_option l \<noteq> None then [True]
        else if match_option l \<noteq> None then [False] else [])"
  by (auto simp: body_line_def Let_def split: option.splits)

lemma options_foldl:
  "map opt_default (options (foldl body_line b ls)) =
     map opt_default (options b) @
       map (\<lambda>l. match_default_option l \<noteq> None)
         (filter (\<lambda>l. match_default_option l \<noteq> None \<or> match_option l \<noteq> None) ls)"
proof (induction ls arbitrary: b)
  case Nil
  then show ?case by simp
next
  case (Cons l ls)
  show ?case
    by (simp add: Cons.IH options_body_line)
qed

lemma filter_map_id: "length (filter (\<lambda>b. b) (map f xs)) = length (filter f xs)"
  by (induction xs) auto

lemma not_header:
  "\<not> is_header l \<Longrightarrow> match_section l = None \<and> match_question l = None"
  unfolding is_header_def by blast

lemma parse_lines_total: "list_all int_fits ls \<Longrightarrow> \<exists>s'. parse_lines s ls = Inr s'"
proof (induction ls arbitrary: s)
  case Nil
  then show ?case by simp
next
  case (Cons l ls)
  obtain s1 where "parse_line s l = Inr s1"
    using Cons.prems parse_line_total [of l s] by auto
  then show ?case using Cons.IH [of s1] Cons.prems by simp
qed

lemma parse_lines_error: "\<not> list_all int_fits ls \<Longrightarrow> parse_lines s ls = Inl ValueError"
proof (induction ls arbitrary: s)
  case Nil
  then show ?case by simp
next
  case (Cons l ls)
  show ?case
  proof (cases "int_fits l")
    case True
    then obtain s1 where "parse_line s l = Inr s1"
      using parse_line_total [of l s] by auto
    then show ?thesis using Cons.IH [of s1] Cons.prems True by simp
  next
    case False
    then show ?thesis by (simp add: parse_line_error)
  qed
qed

lemma parse_lines_Cons:
  "parse_lines s (l # ls) = Inr s' \<Longrightarrow> \<exists>s1. parse_line s l = Inr s1 \<and> parse_lines s1 ls = Inr s'"
  by (cases "parse_line s l") auto

lemma parse_markdown_total:
  "(\<exists>doc. parse_markdown file = Inr doc) = list_all int_fits (file_lines file)"
proof (cases "list_all int_fits (file_lines file)")
  case True
  then obtain s' where "parse_lines init_pstate (file_lines file) = Inr s'"
    using parse_lines_total by blast
  then show ?thesis using True by (simp add: parse_markdown_def)
next
  case False
  then have "parse_lines init_pstate (file_lines file) = Inl ValueError"
    by (rule parse_lines_error)
  then show ?thesis using False by (simp add: parse_markdown_def)
qed




text \<open>What the question that is being read will contribute once it is flushed, \<open>ls\<close> being the
  lines still to come.\<close>

definition pending :: "pstate \<Rightarrow> string list \<Rightarrow> (string \<times> nat) list" where
  "pending s ls =
     (case cur_q s of
        None \<Rightarrow> []
      | Some q \<Rightarrow>
          if sections s = [] then []
          else [(q_id q, length (q_answers q) + (if collecting_answer s then 1 else 0) + nmarkers ls)])"

lemma process_body_keeps [simp]:
  "q_id (process_body q ls) = q_id q"
  "q_answers (process_body q ls) = q_answers q"
  by (simp_all add: process_body_def Let_def)

lemma answer_counts_attach:
  "secs \<noteq> [] \<Longrightarrow>
   answer_counts (attach q secs) = answer_counts secs @ [(q_id q, length (q_answers q))]"
proof -
  assume ne: "secs \<noteq> []"
  have "concat (map sec_questions (butlast secs @ [last secs])) =
      concat (map sec_questions (butlast secs)) @ sec_questions (last secs)"
    by simp
  then have "concat (map sec_questions secs) =
      concat (map sec_questions (butlast secs)) @ sec_questions (last secs)"
    by (simp only: append_butlast_last_id [OF ne])
  then show ?thesis using ne by (simp add: answer_counts_def attach_def)
qed

lemma flush_None [simp]: "cur_q s = None \<Longrightarrow> flush_question s = s"
  by (simp add: flush_question_def)

lemma sections_flush_empty [simp]: "(sections (flush_question s) = []) = (sections s = [])"
  by (auto simp: flush_question_def close_answer_def attach_def Let_def split: option.splits)

lemma answer_counts_flush:
  "answer_counts (sections (flush_question s)) = answer_counts (sections s) @ pending s []"
proof (cases "cur_q s")
  case None
  then show ?thesis by (simp add: pending_def)
next
  case (Some q)
  show ?thesis
  proof (cases "sections s = []")
    case True
    then have e: "sections (flush_question s) = []" by simp
    show ?thesis unfolding e using True Some by (simp add: pending_def answer_counts_def)
  next
    case False
    then show ?thesis using Some
      by (simp add: flush_question_def close_answer_def Let_def pending_def nmarkers_def
          answer_counts_attach)
  qed
qed

lemma nmarkers_header: "is_header l \<Longrightarrow> nmarkers (l # ls) = 0"
  by (simp add: nmarkers_def)

lemma nmarkers_plain:
  "\<not> is_header l \<Longrightarrow> nmarkers (l # ls) = (if is_answer_marker l then 1 else 0) + nmarkers ls"
  by (simp add: nmarkers_def)

lemma pending_header: "is_header l \<Longrightarrow> pending s (l # ls) = pending s []"
  by (simp add: pending_def nmarkers_header nmarkers_def split: option.splits)

lemma answer_counts_snoc_empty:
  "answer_counts (secs @ [\<lparr>sec_id = n, sec_title = t, sec_questions = []\<rparr>]) = answer_counts secs"
  by (simp add: answer_counts_def)

lemma step_counts:
  assumes "parse_line s l = Inr s1"
  shows "answer_counts (sections s1) @ pending s1 ls @ marker_counts (sections s1 \<noteq> []) ls
       = answer_counts (sections s) @ pending s (l # ls) @ marker_counts (sections s \<noteq> []) (l # ls)"
proof (cases "match_section l")
  case (Some a)
  obtain d t where a: "a = (d, t)" by (cases a)
  obtain n where n: "py_int d = Some n"
    using parse_line_section [OF assms(1)] Some a by auto
  have hdr: "is_header l" using Some by (simp add: is_header_def)
  have s1: "s1 = (flush_question s)\<lparr>sections := sections (flush_question s) @
                    [\<lparr>sec_id = n, sec_title = strip t, sec_questions = []\<rparr>], cur_q := None\<rparr>"
    using assms Some a n by (simp add: parse_line_def Let_def)
  have p: "pending s (l # ls) = pending s []" by (rule pending_header [OF hdr])
  have p1: "pending s1 ls = []" by (simp add: s1 pending_def)
  have c: "answer_counts (sections s1) = answer_counts (sections s) @ pending s []"
    by (simp add: s1 answer_counts_snoc_empty answer_counts_flush)
  have ne: "sections s1 \<noteq> []" by (simp add: s1)
  show ?thesis
    unfolding p p1 c using Some ne by simp
next
  case None
  show ?thesis
  proof (cases "match_question l")
    case (Some a)
    obtain qid t where a: "a = (qid, t)" by (cases a)
    have hdr: "is_header l" using Some by (simp add: is_header_def)
    have s1: "s1 = (flush_question s)\<lparr>cur_q := Some \<lparr>q_id = qid, q_title = strip t, q_description = [],
                                          q_options = [], q_table = None, q_answers = [],
                                          q_sub_prompts = []\<rparr>,
                           collecting_answer := False, body_buf := [], answer_buf := []\<rparr>"
      using assms None Some a by (simp add: parse_line_def Let_def)
    have p: "pending s (l # ls) = pending s []" by (rule pending_header [OF hdr])
    have p1: "pending s1 ls = (if sections s = [] then [] else [(qid, nmarkers ls)])"
      by (simp add: s1 pending_def)
    have c: "answer_counts (sections s1) = answer_counts (sections s) @ pending s []"
      by (simp add: s1 answer_counts_flush)
    have ne: "(sections s1 = []) = (sections s = [])" by (simp add: s1)
    show ?thesis
      unfolding p p1 c ne using None Some a by simp
  next
    case qNone: None
    have nh: "\<not> is_header l" using None qNone by (simp add: is_header_def)
    show ?thesis
    proof (cases "cur_q s")
      case None
      then have "s1 = s" using assms \<open>match_section l = None\<close> qNone by (simp add: parse_line_def)
      then show ?thesis
        using None \<open>match_section l = None\<close> qNone by (simp add: pending_def)
    next
      case (Some q)
      have "sections s1 = sections s \<and> pending s1 ls = pending s (l # ls)"
        using assms Some \<open>match_section l = None\<close> qNone
        by (cases "collecting_answer s"; cases "is_answer_marker l"; cases "strip l = ''---''";
            cases "is_sub_prompt l")
          (auto simp: parse_line_def pending_def nmarkers_plain [OF nh] close_answer_def Let_def)
      then show ?thesis
        using \<open>match_section l = None\<close> qNone by simp
    qed
  qed
qed

lemma parse_counts:
  "parse_lines s ls = Inr s' \<Longrightarrow>
   answer_counts (sections (flush_question s')) =
     answer_counts (sections s) @ pending s ls @ marker_counts (sections s \<noteq> []) ls"
proof (induction ls arbitrary: s)
  case Nil
  then show ?case by (simp add: answer_counts_flush)
next
  case (Cons l ls)
  obtain s1 where s1: "parse_line s l = Inr s1"
    using Cons.prems(1) parse_lines_Cons by blast
  then have "parse_lines s1 ls = Inr s'" using Cons.prems by simp
  then have "answer_counts (sections (flush_question s')) =
     answer_counts (sections s1) @ pending s1 ls @ marker_counts (sections s1 \<noteq> []) ls"
    by (rule Cons.IH)
  then show ?case using step_counts [OF s1, of ls] by simp
qed

section \<open>Facts about parsing and rewriting in turn\<close>

text \<open>What the question that is being read will contribute to \<open>doc_answers\<close> once it is flushed,
  and the invariant that the answer buffer is empty unless an answer is being collected.\<close>

definition pending_answers :: "pstate \<Rightarrow> string list \<Rightarrow> (string \<times> string list) list" where
  "pending_answers s ls =
     (case cur_q s of
        None \<Rightarrow> []
      | Some q \<Rightarrow>
          if sections s = [] then []
          else [(q_id q,
                 q_answers q @
                   (if collecting_answer s
                    then strip (join [newline] (answer_buf s @ buffered_span ls))
                           # block_answers (after_span ls)
                    else block_answers ls))])"

definition buf_inv :: "pstate \<Rightarrow> bool" where
  "buf_inv s = (\<not> collecting_answer s \<longrightarrow> answer_buf s = [])"

lemma header_ends_slot: "is_header l \<Longrightarrow> ends_slot l"
  by (auto simp: is_header_def ends_slot_def)

lemma marker_ends_slot: "is_answer_marker l \<Longrightarrow> ends_slot l"
  by (simp add: ends_slot_def)

lemma spans_ends [simp]:
  "ends_slot l \<Longrightarrow> buffered_span (l # ls) = []"
  "ends_slot l \<Longrightarrow> after_span (l # ls) = l # ls"
  "\<not> ends_slot l \<Longrightarrow> buffered_span (l # ls) = l # buffered_span ls"
  "\<not> ends_slot l \<Longrightarrow> after_span (l # ls) = after_span ls"
  by (simp_all add: buffered_span_def after_span_def)

lemma spans_Nil [simp]: "buffered_span [] = []" "after_span [] = []"
  by (simp_all add: buffered_span_def after_span_def)

lemma doc_answers_attach:
  "secs \<noteq> [] \<Longrightarrow> doc_answers (attach q secs) = doc_answers secs @ [(q_id q, q_answers q)]"
proof -
  assume ne: "secs \<noteq> []"
  have "concat (map sec_questions (butlast secs @ [last secs])) =
      concat (map sec_questions (butlast secs)) @ sec_questions (last secs)"
    by simp
  then have "concat (map sec_questions secs) =
      concat (map sec_questions (butlast secs)) @ sec_questions (last secs)"
    by (simp only: append_butlast_last_id [OF ne])
  then show ?thesis using ne by (simp add: doc_answers_def attach_def)
qed

lemma doc_answers_flush:
  "doc_answers (sections (flush_question s)) = doc_answers (sections s) @ pending_answers s []"
proof (cases "cur_q s")
  case None
  then show ?thesis by (simp add: pending_answers_def)
next
  case (Some q)
  show ?thesis
  proof (cases "sections s = []")
    case True
    then have e: "sections (flush_question s) = []" by simp
    show ?thesis unfolding e using True Some by (simp add: pending_answers_def doc_answers_def)
  next
    case False
    then show ?thesis using Some
      by (simp add: flush_question_def close_answer_def Let_def pending_answers_def
          doc_answers_attach)
  qed
qed

lemma buf_inv_flush: "buf_inv s \<Longrightarrow> buf_inv (flush_question s)"
  by (auto simp: buf_inv_def flush_question_def close_answer_def Let_def split: option.splits)

lemma pending_answers_header: "is_header l \<Longrightarrow> pending_answers s (l # ls) = pending_answers s []"
  by (simp add: pending_answers_def header_ends_slot split: option.splits)

lemma doc_answers_snoc_empty:
  "doc_answers (secs @ [\<lparr>sec_id = n, sec_title = t, sec_questions = []\<rparr>]) = doc_answers secs"
  by (simp add: doc_answers_def)

lemma step_answers:
  assumes "parse_line s l = Inr s1" and inv: "buf_inv s"
  shows "buf_inv s1 \<and>
         doc_answers (sections s1) @ pending_answers s1 ls @ question_answers (sections s1 \<noteq> []) ls
       = doc_answers (sections s) @ pending_answers s (l # ls) @ question_answers (sections s \<noteq> []) (l # ls)"
proof (cases "match_section l")
  case (Some a)
  obtain d t where a: "a = (d, t)" by (cases a)
  obtain n where n: "py_int d = Some n"
    using parse_line_section [OF assms(1)] Some a by auto
  have hdr: "is_header l" using Some by (simp add: is_header_def)
  have s1: "s1 = (flush_question s)\<lparr>sections := sections (flush_question s) @
                    [\<lparr>sec_id = n, sec_title = strip t, sec_questions = []\<rparr>], cur_q := None\<rparr>"
    using assms Some a n by (simp add: parse_line_def Let_def)
  have p: "pending_answers s (l # ls) = pending_answers s []" by (rule pending_answers_header [OF hdr])
  have p1: "pending_answers s1 ls = []" by (simp add: s1 pending_answers_def)
  have c: "doc_answers (sections s1) = doc_answers (sections s) @ pending_answers s []"
    by (simp add: s1 doc_answers_snoc_empty doc_answers_flush)
  have ne: "sections s1 \<noteq> []" by (simp add: s1)
  have b: "buf_inv s1" using buf_inv_flush [OF inv] by (simp add: s1 buf_inv_def)
  show ?thesis
    unfolding p p1 c using Some ne b by simp
next
  case None
  show ?thesis
  proof (cases "match_question l")
    case (Some a)
    obtain qid t where a: "a = (qid, t)" by (cases a)
    have hdr: "is_header l" using Some by (simp add: is_header_def)
    have s1: "s1 = (flush_question s)\<lparr>cur_q := Some \<lparr>q_id = qid, q_title = strip t, q_description = [],
                                          q_options = [], q_table = None, q_answers = [],
                                          q_sub_prompts = []\<rparr>,
                           collecting_answer := False, body_buf := [], answer_buf := []\<rparr>"
      using assms None Some a by (simp add: parse_line_def Let_def)
    have p: "pending_answers s (l # ls) = pending_answers s []" by (rule pending_answers_header [OF hdr])
    have p1: "pending_answers s1 ls = (if sections s = [] then [] else [(qid, block_answers ls)])"
      by (simp add: s1 pending_answers_def)
    have c: "doc_answers (sections s1) = doc_answers (sections s) @ pending_answers s []"
      by (simp add: s1 doc_answers_flush)
    have ne: "(sections s1 = []) = (sections s = [])" by (simp add: s1)
    have b: "buf_inv s1" by (simp add: s1 buf_inv_def)
    show ?thesis
      unfolding p p1 c ne using None Some a b by simp
  next
    case qNone: None
    have nh: "\<not> is_header l" using None qNone by (simp add: is_header_def)
    show ?thesis
    proof (cases "cur_q s")
      case None
      then have "s1 = s" using assms \<open>match_section l = None\<close> qNone by (simp add: parse_line_def)
      then show ?thesis
        using None \<open>match_section l = None\<close> qNone inv by (simp add: pending_answers_def)
    next
      case (Some q)
      have es: "ends_slot l = (is_answer_marker l \<or> strip l = ''---'' \<or> is_sub_prompt l)"
        using \<open>match_section l = None\<close> qNone by (simp add: ends_slot_def)
      have pl: "parse_line s l =
          (if is_answer_marker l then
             Inr ((if collecting_answer s then close_answer s else s)\<lparr>collecting_answer := True\<rparr>)
           else if collecting_answer s then
             (if strip l = ''---'' then Inr ((close_answer s)\<lparr>collecting_answer := False\<rparr>)
              else if is_sub_prompt l then
                (let s1 = (close_answer s)\<lparr>collecting_answer := False\<rparr>
                 in Inr (s1\<lparr>cur_q := map_option (\<lambda>q. q\<lparr>q_sub_prompts := q_sub_prompts q @ [l]\<rparr>) (cur_q s1),
                            body_buf := body_buf s1 @ [l]\<rparr>))
              else Inr (s\<lparr>answer_buf := answer_buf s @ [l]\<rparr>))
           else Inr (s\<lparr>body_buf := body_buf s @ [l]\<rparr>))"
        using Some \<open>match_section l = None\<close> qNone by (simp add: parse_line_def)
      have "buf_inv s1 \<and> sections s1 = sections s \<and> pending_answers s1 ls = pending_answers s (l # ls)"
      proof (cases "is_answer_marker l")
        case True
        then have e: "ends_slot l" by (simp add: es)
        have s1: "s1 = (if collecting_answer s then close_answer s else s)\<lparr>collecting_answer := True\<rparr>"
          using assms(1) True unfolding pl by simp
        show ?thesis
          using Some True nh e inv
          by (cases "collecting_answer s")
            (simp_all add: s1 pending_answers_def close_answer_def buf_inv_def)
      next
        case False
        show ?thesis
        proof (cases "collecting_answer s")
          case c: True
          show ?thesis
          proof (cases "strip l = ''---''")
            case True
            have s1: "s1 = (close_answer s)\<lparr>collecting_answer := False\<rparr>"
              using assms(1) False c True unfolding pl by simp
            have e: "ends_slot l" using True by (simp add: es)
            show ?thesis
              using Some False nh e c
              by (simp add: s1 pending_answers_def close_answer_def buf_inv_def)
          next
            case nd: False
            show ?thesis
            proof (cases "is_sub_prompt l")
              case True
              have s1: "s1 = (close_answer s)\<lparr>collecting_answer := False,
                   cur_q := map_option (\<lambda>q. q\<lparr>q_sub_prompts := q_sub_prompts q @ [l]\<rparr>) (cur_q (close_answer s)),
                   body_buf := body_buf s @ [l]\<rparr>"
                using assms(1) False c nd True unfolding pl by (simp add: Let_def close_answer_def)
              have e: "ends_slot l" using True by (simp add: es)
              show ?thesis
                using Some False nh e c
                by (simp add: s1 pending_answers_def close_answer_def buf_inv_def)
            next
              case ns: False
              have s1: "s1 = s\<lparr>answer_buf := answer_buf s @ [l]\<rparr>"
                using assms(1) False c nd ns unfolding pl by simp
              have e: "\<not> ends_slot l" using False nd ns by (simp add: es)
              show ?thesis
                using Some False nh e c
                by (simp add: s1 pending_answers_def buf_inv_def)
            qed
          qed
        next
          case c: False
          have s1: "s1 = s\<lparr>body_buf := body_buf s @ [l]\<rparr>"
            using assms(1) False c unfolding pl by simp
          show ?thesis
            using Some False nh c inv
            by (simp add: s1 pending_answers_def buf_inv_def)
        qed
      qed
      then show ?thesis
        using \<open>match_section l = None\<close> qNone by simp
    qed
  qed
qed

lemma parse_answers:
  "parse_lines s ls = Inr s' \<Longrightarrow> buf_inv s \<Longrightarrow>
   doc_answers (sections (flush_question s')) =
     doc_answers (sections s) @ pending_answers s ls @ question_answers (sections s \<noteq> []) ls"
proof (induction ls arbitrary: s)
  case Nil
  then show ?case by (simp add: doc_answers_flush)
next
  case (Cons l ls)
  obtain s1 where s1: "parse_line s l = Inr s1"
    using Cons.prems(1) parse_lines_Cons by blast
  have st: "buf_inv s1 \<and>
         doc_answers (sections s1) @ pending_answers s1 ls @ question_answers (sections s1 \<noteq> []) ls
       = doc_answers (sections s) @ pending_answers s (l # ls) @ question_answers (sections s \<noteq> []) (l # ls)"
    using s1 Cons.prems(2) by (rule step_answers)
  have "parse_lines s1 ls = Inr s'" using Cons.prems s1 by simp
  then have "doc_answers (sections (flush_question s')) =
     doc_answers (sections s1) @ pending_answers s1 ls @ question_answers (sections s1 \<noteq> []) ls"
    using st by (intro Cons.IH) simp_all
  then show ?case using st by simp
qed

lemma parse_markdown_lines:
  "parse_markdown file = Inr doc \<Longrightarrow>
   \<exists>s'. parse_lines init_pstate (file_lines file) = Inr s' \<and> doc = sections (flush_question s')"
  by (cases "parse_lines init_pstate (file_lines file)") (auto simp: parse_markdown_def)

lemma parse_markdown_answers:
  assumes "parse_markdown file = Inr doc"
  shows "doc_answers doc = question_answers False (file_lines file)"
proof -
  obtain s' where s': "parse_lines init_pstate (file_lines file) = Inr s'"
      and d: "doc = sections (flush_question s')"
    using parse_markdown_lines [OF assms] by blast
  have "doc_answers (sections (flush_question s')) =
     doc_answers (sections init_pstate) @ pending_answers init_pstate (file_lines file)
       @ question_answers (sections init_pstate \<noteq> []) (file_lines file)"
    using s' by (rule parse_answers) (simp add: buf_inv_def init_pstate_def)
  then show ?thesis
    using d by (simp add: init_pstate_def pending_answers_def doc_answers_def)
qed

text \<open>What the question that is being read will be once it is flushed.\<close>

definition pending_question :: "pstate \<Rightarrow> string list \<Rightarrow> question list" where
  "pending_question s ls =
     (case cur_q s of
        None \<Rightarrow> []
      | Some q \<Rightarrow>
          if sections s = [] then []
          else [process_body
                  (q\<lparr>q_answers := q_answers q @
                        (if collecting_answer s
                         then strip (join [newline] (answer_buf s @ buffered_span ls))
                                # block_answers (after_span ls)
                         else block_answers ls),
                     q_sub_prompts := q_sub_prompts q @ sub_lines (collecting_answer s) ls\<rparr>)
                  (body_buf s @ body_lines (collecting_answer s) ls)])"

lemma doc_questions_attach:
  "secs \<noteq> [] \<Longrightarrow> doc_questions (attach q secs) = doc_questions secs @ [q]"
proof -
  assume ne: "secs \<noteq> []"
  have "concat (map sec_questions (butlast secs @ [last secs])) =
      concat (map sec_questions (butlast secs)) @ sec_questions (last secs)"
    by simp
  then have "concat (map sec_questions secs) =
      concat (map sec_questions (butlast secs)) @ sec_questions (last secs)"
    by (simp only: append_butlast_last_id [OF ne])
  then show ?thesis using ne by (simp add: doc_questions_def attach_def)
qed

lemma doc_questions_flush:
  "doc_questions (sections (flush_question s)) = doc_questions (sections s) @ pending_question s []"
proof (cases "cur_q s")
  case None
  then show ?thesis by (simp add: pending_question_def)
next
  case (Some q)
  show ?thesis
  proof (cases "sections s = []")
    case True
    then have e: "sections (flush_question s) = []" by simp
    show ?thesis unfolding e using True Some by (simp add: pending_question_def doc_questions_def)
  next
    case False
    then show ?thesis using Some
      by (simp add: flush_question_def close_answer_def Let_def pending_question_def
          doc_questions_attach)
  qed
qed

lemma pending_question_header: "is_header l \<Longrightarrow> pending_question s (l # ls) = pending_question s []"
  by (simp add: pending_question_def header_ends_slot split: option.splits)

lemma doc_questions_snoc_empty:
  "doc_questions (secs @ [\<lparr>sec_id = n, sec_title = t, sec_questions = []\<rparr>]) = doc_questions secs"
  by (simp add: doc_questions_def)


lemma step_questions:
  assumes "parse_line s l = Inr s1" and inv: "buf_inv s"
  shows "buf_inv s1 \<and>
         doc_questions (sections s1) @ pending_question s1 ls
           @ map question_of (question_blocks (sections s1 \<noteq> []) ls)
       = doc_questions (sections s) @ pending_question s (l # ls)
           @ map question_of (question_blocks (sections s \<noteq> []) (l # ls))"
proof (cases "match_section l")
  case (Some a)
  obtain d t where a: "a = (d, t)" by (cases a)
  obtain n where n: "py_int d = Some n"
    using parse_line_section [OF assms(1)] Some a by auto
  have hdr: "is_header l" using Some by (simp add: is_header_def)
  have s1: "s1 = (flush_question s)\<lparr>sections := sections (flush_question s) @
                    [\<lparr>sec_id = n, sec_title = strip t, sec_questions = []\<rparr>], cur_q := None\<rparr>"
    using assms Some a n by (simp add: parse_line_def Let_def)
  have p: "pending_question s (l # ls) = pending_question s []" by (rule pending_question_header [OF hdr])
  have p1: "pending_question s1 ls = []" by (simp add: s1 pending_question_def)
  have c: "doc_questions (sections s1) = doc_questions (sections s) @ pending_question s []"
    by (simp add: s1 doc_questions_snoc_empty doc_questions_flush)
  have ne: "sections s1 \<noteq> []" by (simp add: s1)
  have b: "buf_inv s1" using buf_inv_flush [OF inv] by (simp add: s1 buf_inv_def)
  show ?thesis
    unfolding p p1 c using Some ne b by simp
next
  case None
  show ?thesis
  proof (cases "match_question l")
    case (Some a)
    obtain qid t where a: "a = (qid, t)" by (cases a)
    have hdr: "is_header l" using Some by (simp add: is_header_def)
    have s1: "s1 = (flush_question s)\<lparr>cur_q := Some \<lparr>q_id = qid, q_title = strip t, q_description = [],
                                          q_options = [], q_table = None, q_answers = [],
                                          q_sub_prompts = []\<rparr>,
                           collecting_answer := False, body_buf := [], answer_buf := []\<rparr>"
      using assms None Some a by (simp add: parse_line_def Let_def)
    have p: "pending_question s (l # ls) = pending_question s []" by (rule pending_question_header [OF hdr])
    have p1: "pending_question s1 ls = (if sections s = [] then [] else [question_of (qid, t, ls)])"
      by (simp add: s1 pending_question_def question_of_def)
    have c: "doc_questions (sections s1) = doc_questions (sections s) @ pending_question s []"
      by (simp add: s1 doc_questions_flush)
    have ne: "(sections s1 = []) = (sections s = [])" by (simp add: s1)
    have b: "buf_inv s1" by (simp add: s1 buf_inv_def)
    show ?thesis
      unfolding p p1 c ne using None Some a b by simp
  next
    case qNone: None
    have nh: "\<not> is_header l" using None qNone by (simp add: is_header_def)
    show ?thesis
    proof (cases "cur_q s")
      case None
      then have "s1 = s" using assms \<open>match_section l = None\<close> qNone by (simp add: parse_line_def)
      then show ?thesis
        using None \<open>match_section l = None\<close> qNone inv by (simp add: pending_question_def)
    next
      case (Some q)
      have es: "ends_slot l = (is_answer_marker l \<or> strip l = ''---'' \<or> is_sub_prompt l)"
        using \<open>match_section l = None\<close> qNone by (simp add: ends_slot_def)
      have pl: "parse_line s l =
          (if is_answer_marker l then
             Inr ((if collecting_answer s then close_answer s else s)\<lparr>collecting_answer := True\<rparr>)
           else if collecting_answer s then
             (if strip l = ''---'' then Inr ((close_answer s)\<lparr>collecting_answer := False\<rparr>)
              else if is_sub_prompt l then
                (let s1 = (close_answer s)\<lparr>collecting_answer := False\<rparr>
                 in Inr (s1\<lparr>cur_q := map_option (\<lambda>q. q\<lparr>q_sub_prompts := q_sub_prompts q @ [l]\<rparr>) (cur_q s1),
                            body_buf := body_buf s1 @ [l]\<rparr>))
              else Inr (s\<lparr>answer_buf := answer_buf s @ [l]\<rparr>))
           else Inr (s\<lparr>body_buf := body_buf s @ [l]\<rparr>))"
        using Some \<open>match_section l = None\<close> qNone by (simp add: parse_line_def)
      have "buf_inv s1 \<and> sections s1 = sections s \<and> pending_question s1 ls = pending_question s (l # ls)"
      proof (cases "is_answer_marker l")
        case True
        then have e: "ends_slot l" by (simp add: es)
        have s1: "s1 = (if collecting_answer s then close_answer s else s)\<lparr>collecting_answer := True\<rparr>"
          using assms(1) True unfolding pl by simp
        show ?thesis
          using Some True nh e inv
          by (cases "collecting_answer s")
            (simp_all add: s1 pending_question_def close_answer_def buf_inv_def)
      next
        case False
        show ?thesis
        proof (cases "collecting_answer s")
          case c: True
          show ?thesis
          proof (cases "strip l = ''---''")
            case True
            have s1: "s1 = (close_answer s)\<lparr>collecting_answer := False\<rparr>"
              using assms(1) False c True unfolding pl by simp
            have e: "ends_slot l" using True by (simp add: es)
            show ?thesis
              using Some False nh e c True
              by (simp add: s1 pending_question_def close_answer_def buf_inv_def)
          next
            case nd: False
            show ?thesis
            proof (cases "is_sub_prompt l")
              case True
              have s1: "s1 = (close_answer s)\<lparr>collecting_answer := False,
                   cur_q := map_option (\<lambda>q. q\<lparr>q_sub_prompts := q_sub_prompts q @ [l]\<rparr>) (cur_q (close_answer s)),
                   body_buf := body_buf s @ [l]\<rparr>"
                using assms(1) False c nd True unfolding pl by (simp add: Let_def close_answer_def)
              have e: "ends_slot l" using True by (simp add: es)
              show ?thesis
                using Some False nh e c nd True
                by (simp add: s1 pending_question_def close_answer_def buf_inv_def)
            next
              case ns: False
              have s1: "s1 = s\<lparr>answer_buf := answer_buf s @ [l]\<rparr>"
                using assms(1) False c nd ns unfolding pl by simp
              have e: "\<not> ends_slot l" using False nd ns by (simp add: es)
              show ?thesis
                using Some False nh e c nd ns
                by (simp add: s1 pending_question_def buf_inv_def)
            qed
          qed
        next
          case c: False
          have s1: "s1 = s\<lparr>body_buf := body_buf s @ [l]\<rparr>"
            using assms(1) False c unfolding pl by simp
          show ?thesis
            using Some False nh c inv
            by (simp add: s1 pending_question_def buf_inv_def)
        qed
      qed
      then show ?thesis
        using \<open>match_section l = None\<close> qNone by simp
    qed
  qed
qed

lemma parse_questions_from:
  "parse_lines s ls = Inr s' \<Longrightarrow> buf_inv s \<Longrightarrow>
   doc_questions (sections (flush_question s')) =
     doc_questions (sections s) @ pending_question s ls
       @ map question_of (question_blocks (sections s \<noteq> []) ls)"
proof (induction ls arbitrary: s)
  case Nil
  then show ?case by (simp add: doc_questions_flush)
next
  case (Cons l ls)
  obtain s1 where s1: "parse_line s l = Inr s1"
    using Cons.prems(1) parse_lines_Cons by blast
  have st: "buf_inv s1 \<and>
         doc_questions (sections s1) @ pending_question s1 ls
           @ map question_of (question_blocks (sections s1 \<noteq> []) ls)
       = doc_questions (sections s) @ pending_question s (l # ls)
           @ map question_of (question_blocks (sections s \<noteq> []) (l # ls))"
    using s1 Cons.prems(2) by (rule step_questions)
  have "parse_lines s1 ls = Inr s'" using Cons.prems s1 by simp
  then have "doc_questions (sections (flush_question s')) =
     doc_questions (sections s1) @ pending_question s1 ls
       @ map question_of (question_blocks (sections s1 \<noteq> []) ls)"
    using st by (intro Cons.IH) simp_all
  then show ?case using st by simp
qed

lemma parse_markdown_questions:
  assumes "parse_markdown file = Inr doc"
  shows "doc_questions doc = map question_of (question_blocks False (file_lines file))"
proof -
  obtain s' where s': "parse_lines init_pstate (file_lines file) = Inr s'"
      and d: "doc = sections (flush_question s')"
    using parse_markdown_lines [OF assms] by blast
  have "doc_questions (sections (flush_question s')) =
     doc_questions (sections init_pstate) @ pending_question init_pstate (file_lines file)
       @ map question_of (question_blocks (sections init_pstate \<noteq> []) (file_lines file))"
    using s' by (rule parse_questions_from) (simp add: buf_inv_def init_pstate_def)
  then show ?thesis
    using d by (simp add: init_pstate_def pending_question_def doc_questions_def)
qed

lemma parse_markdown_counts:
  assumes "parse_markdown file = Inr doc"
  shows "answer_counts doc = marker_counts False (file_lines file)"
proof -
  obtain s' where s': "parse_lines init_pstate (file_lines file) = Inr s'"
      and d: "doc = sections (flush_question s')"
    using parse_markdown_lines [OF assms] by blast
  have "answer_counts (sections (flush_question s')) =
     answer_counts (sections init_pstate) @ pending init_pstate (file_lines file)
       @ marker_counts (sections init_pstate \<noteq> []) (file_lines file)"
    using s' by (rule parse_counts)
  then show ?thesis
    using d by (simp add: init_pstate_def pending_def answer_counts_def)
qed


lemma strip_strip: "strip (strip s) = strip s"
proof -
  define t where "t = dropWhile is_space s"
  define u where "u = dropWhile is_space (rev t)"
  have a: "dropWhile is_space u = u"
    unfolding u_def by (metis dropWhile_idem)
  have "t = [] \<or> \<not> is_space (hd t)"
    unfolding t_def by (metis hd_dropWhile)
  then have b: "dropWhile is_space (rev u) = rev u"
  proof
    assume "t = []"
    then show ?thesis by (simp add: u_def)
  next
    assume h: "\<not> is_space (hd t)"
    show ?thesis
    proof (cases "rev u")
      case Nil
      then show ?thesis by simp
    next
      case (Cons x xs)
      have "takeWhile is_space (rev t) @ u = rev t"
        unfolding u_def by simp
      then have "rev u @ rev (takeWhile is_space (rev t)) = t"
        by (metis rev_append rev_rev_ident)
      then have "hd t = x" using Cons by (metis append_Cons list.sel(1))
      then show ?thesis using h Cons by simp
    qed
  qed
  show ?thesis
    unfolding strip_def using a b by (simp add: t_def [symmetric] u_def [symmetric])
qed

lemma match_question_qid:
  "match_question l = Some (qid, t) \<Longrightarrow> match_qid l = Some qid \<and> qid \<noteq> []"
  by (auto simp: match_question_def match_qid_def Let_def split: if_splits)

lemma section_prefix: "startswith l ''## '' \<Longrightarrow> \<not> startswith l ''### ''"
  by (auto simp: startswith_def prefix_def)

lemma section_not_qid: "match_section l \<noteq> None \<Longrightarrow> match_qid l = None"
proof -
  assume "match_section l \<noteq> None"
  then have "startswith l ''## ''"
    unfolding match_section_def by (metis (full_types))
  then have "\<not> startswith l ''### ''" by (rule section_prefix)
  then show ?thesis by (simp add: match_qid_def)
qed

lemma section_not_marker: "match_section l \<noteq> None \<Longrightarrow> \<not> is_answer_marker l"
  by (cases l) (auto simp: match_section_def is_answer_marker_def split: if_splits)

lemma question_not_marker: "match_question l \<noteq> None \<Longrightarrow> \<not> is_answer_marker l"
  by (cases l) (auto simp: match_question_def is_answer_marker_def split: if_splits)

lemma save_marker:
  "is_answer_marker l \<Longrightarrow>
   save_loop a q i (l # rest) [] =
     l # new_slot a (slot_key q i) @ save_loop a q (Suc i) (skip_old rest) []"
  using save_loop_acc [of a q "Suc i" "skip_old rest" "[l] @ new_slot a (slot_key q i)"]
  by (simp add: save_loop_marker)

lemma save_plain:
  "\<not> is_answer_marker l \<Longrightarrow>
   save_loop a q i (l # rest) [] =
     l # save_loop a (case match_qid l of Some x \<Rightarrow> Some x | None \<Rightarrow> q)
           (case match_qid l of Some x \<Rightarrow> 0 | None \<Rightarrow> i) rest []"
  using save_loop_acc [of a _ _ rest "[l]"]
  by (simp add: save_loop_plain)

lemma question_answers_after_span:
  "question_answers b (after_span ls) = question_answers b ls"
proof (induction ls)
  case Nil
  then show ?case by simp
next
  case (Cons l ls)
  show ?case
  proof (cases "ends_slot l")
    case True
    then show ?thesis by simp
  next
    case False
    then have "match_section l = None" "match_question l = None"
      unfolding ends_slot_def by blast+
    then show ?thesis using False Cons by simp
  qed
qed

lemma markers_owned_after_span:
  "markers_owned b inq ls \<Longrightarrow> markers_owned b inq (after_span ls)"
proof (induction ls)
  case Nil
  then show ?case by simp
next
  case (Cons l ls)
  show ?case
  proof (cases "ends_slot l")
    case True
    then show ?thesis using Cons.prems by simp
  next
    case False
    then have "match_section l = None" "match_question l = None" "\<not> is_answer_marker l"
      unfolding ends_slot_def by blast+
    then show ?thesis using False Cons by simp
  qed
qed

lemma slots_agree_dropWhile: "slots_agree ls \<Longrightarrow> slots_agree (dropWhile P ls)"
  by (induction ls) auto

lemma skip_old_drop: "skip_old ls = drop (length (skipped_span ls)) ls"
proof -
  have "ls = skipped_span ls @ skip_old ls"
    by (simp add: skipped_span_takeWhile skip_old_dropWhile)
  then show ?thesis by (metis append_eq_conv_conj)
qed

lemma after_span_drop: "after_span ls = drop (length (buffered_span ls)) ls"
  by (simp add: after_span_def buffered_span_def dropWhile_eq_drop)

lemma agree_skip: "skipped_span ls = buffered_span ls \<Longrightarrow> skip_old ls = after_span ls"
  by (simp add: skip_old_drop after_span_drop)

lemma round_trip_loop:
  assumes "\<forall>(qid, as) \<in> set (question_answers in_sec ls).
             \<forall>j<length as. A (slot_name qid j) = Some (as ! j)"
    and "inq \<longrightarrow> (\<exists>qid. q = Some qid \<and> qid \<noteq> [] \<and>
            (\<forall>j<length (block_answers ls). A (slot_name qid (i + j)) = Some (block_answers ls ! j)))"
    and "markers_owned in_sec inq ls"
    and "slots_agree ls"
    and "\<forall>l\<in>set ls. match_qid l \<noteq> None \<longrightarrow> match_question l \<noteq> None"
  shows "save_loop A q i ls [] = trimmed ls"
  using assms
proof (induction "length ls" arbitrary: ls q i in_sec inq rule: less_induct)
  case less
  show ?case
  proof (cases ls)
    case Nil
    then show ?thesis by simp
  next
    case (Cons l rest)
    have qa: "\<forall>(qid, as) \<in> set (question_answers in_sec (l # rest)).
             \<forall>j<length as. A (slot_name qid j) = Some (as ! j)"
      using less.prems(1) Cons by simp
    have cur: "inq \<longrightarrow> (\<exists>qid. q = Some qid \<and> qid \<noteq> [] \<and>
            (\<forall>j<length (block_answers (l # rest)).
                A (slot_name qid (i + j)) = Some (block_answers (l # rest) ! j)))"
      using less.prems(2) Cons by simp
    have own: "markers_owned in_sec inq (l # rest)" using less.prems(3) Cons by simp
    have agr: "slots_agree (l # rest)" using less.prems(4) Cons by simp
    have hb: "\<forall>x\<in>set (l # rest). match_qid x \<noteq> None \<longrightarrow> match_question x \<noteq> None"
      using less.prems(5) Cons by simp
    have hb_rest: "\<forall>x\<in>set rest. match_qid x \<noteq> None \<longrightarrow> match_question x \<noteq> None"
      using hb by simp
    have agr_rest: "slots_agree rest" using agr by simp
    show ?thesis
    proof (cases "match_section l")
      case (Some a)
      then have sec: "match_section l \<noteq> None" by simp
      have nm: "\<not> is_answer_marker l" using sec by (rule section_not_marker)
      have nq: "match_qid l = None" using sec by (rule section_not_qid)
      have "save_loop A q i rest [] = trimmed rest"
      proof (rule less.hyps [where in_sec = True and inq = False])
        show "length rest < length ls" by (simp add: Cons)
        show "\<forall>(qid, as) \<in> set (question_answers True rest).
             \<forall>j<length as. A (slot_name qid j) = Some (as ! j)"
          using qa sec by simp
        show "False \<longrightarrow> (\<exists>qid. q = Some qid \<and> qid \<noteq> [] \<and>
            (\<forall>j<length (block_answers rest). A (slot_name qid (i + j)) = Some (block_answers rest ! j)))"
          by simp
        show "markers_owned True False rest" using own sec by simp
        show "slots_agree rest" by (rule agr_rest)
        show "\<forall>x\<in>set rest. match_qid x \<noteq> None \<longrightarrow> match_question x \<noteq> None" by (rule hb_rest)
      qed
      then show ?thesis using nm nq by (simp add: Cons save_plain)
    next
      case None
      show ?thesis
      proof (cases "match_question l")
        case (Some a)
        obtain qid t where a: "a = (qid, t)" by (cases a)
        have mq: "match_qid l = Some qid" and ne: "qid \<noteq> []"
          using match_question_qid Some a by blast+
        have nm: "\<not> is_answer_marker l" using Some question_not_marker by simp
        have insec: "in_sec" using own None Some by simp
        have "save_loop A (Some qid) 0 rest [] = trimmed rest"
        proof (rule less.hyps [where in_sec = in_sec and inq = True])
          show "length rest < length ls" by (simp add: Cons)
          show "\<forall>(qid, as) \<in> set (question_answers in_sec rest).
             \<forall>j<length as. A (slot_name qid j) = Some (as ! j)"
            using qa None Some a by simp
          show "True \<longrightarrow> (\<exists>qid'. Some qid = Some qid' \<and> qid' \<noteq> [] \<and>
            (\<forall>j<length (block_answers rest). A (slot_name qid' (0 + j)) = Some (block_answers rest ! j)))"
            using qa None Some a insec ne by simp
          show "markers_owned in_sec True rest" using own None Some by auto
          show "slots_agree rest" by (rule agr_rest)
          show "\<forall>x\<in>set rest. match_qid x \<noteq> None \<longrightarrow> match_question x \<noteq> None" by (rule hb_rest)
        qed
        then show ?thesis using nm mq by (simp add: Cons save_plain)
      next
        case qNone: None
        have nq: "match_qid l = None" using hb qNone by auto
        have nh: "\<not> is_header l" using None qNone by (simp add: is_header_def)
        have qa_rest: "\<forall>(qid, as) \<in> set (question_answers in_sec rest).
             \<forall>j<length as. A (slot_name qid j) = Some (as ! j)"
          using qa None qNone by simp
        show ?thesis
        proof (cases "is_answer_marker l")
          case True
          have inq: "inq" using own None qNone True by simp
          then obtain qid where q: "q = Some qid" "qid \<noteq> []"
            and look: "\<forall>j<length (block_answers (l # rest)).
                A (slot_name qid (i + j)) = Some (block_answers (l # rest) ! j)"
            using cur by blast
          have ba: "block_answers (l # rest) =
              strip (join [newline] (buffered_span rest)) # block_answers (after_span rest)"
            using nh True by simp
          have sp: "skipped_span rest = buffered_span rest" using agr True by simp
          have sk: "skip_old rest = after_span rest" using sp by (rule agree_skip)
          have "A (slot_name qid (i + 0)) = Some (block_answers (l # rest) ! 0)"
            using look unfolding ba by blast
          then have a0: "A (slot_name qid i) = Some (strip (join [newline] (skipped_span rest)))"
            unfolding ba sp by simp
          have fill: "new_slot A (slot_key q i) =
              (let c = strip (join [newline] (skipped_span rest)) in if c = [] then [[]] else [c, []])"
            using a0 q by (simp add: new_slot_def slot_key_def slot_name_def strip_strip Let_def)
          have "save_loop A q (Suc i) (after_span rest) [] = trimmed (after_span rest)"
          proof (rule less.hyps [where in_sec = in_sec and inq = True])
            show "length (after_span rest) < length ls"
              using length_after_span [of rest] by (simp add: Cons)
            show "\<forall>(qid, as) \<in> set (question_answers in_sec (after_span rest)).
               \<forall>j<length as. A (slot_name qid j) = Some (as ! j)"
              using qa_rest by (simp add: question_answers_after_span)
            show "True \<longrightarrow> (\<exists>qid. q = Some qid \<and> qid \<noteq> [] \<and>
              (\<forall>j<length (block_answers (after_span rest)).
                  A (slot_name qid (Suc i + j)) = Some (block_answers (after_span rest) ! j)))"
            proof (intro impI exI conjI allI)
              show "q = Some qid" "qid \<noteq> []" using q by simp_all
              fix j
              assume "j < length (block_answers (after_span rest))"
              then have "Suc j < length (block_answers (l # rest))" unfolding ba by simp
              then have "A (slot_name qid (i + Suc j)) = Some (block_answers (l # rest) ! Suc j)"
                using look by blast
              then show "A (slot_name qid (Suc i + j)) = Some (block_answers (after_span rest) ! j)"
                unfolding ba by simp
            qed
            show "markers_owned in_sec True (after_span rest)"
              using own None qNone True inq by (simp add: markers_owned_after_span)
            show "slots_agree (after_span rest)"
              unfolding after_span_def using agr_rest by (rule slots_agree_dropWhile)
            show "\<forall>x\<in>set (after_span rest). match_qid x \<noteq> None \<longrightarrow> match_question x \<noteq> None"
              using hb_rest unfolding after_span_def by (auto dest: set_dropWhileD)
          qed
          then show ?thesis
            using True fill sk by (simp add: Cons save_marker Let_def)
        next
          case False
          have "save_loop A q i rest [] = trimmed rest"
          proof (rule less.hyps [where in_sec = in_sec and inq = inq])
            show "length rest < length ls" by (simp add: Cons)
            show "\<forall>(qid, as) \<in> set (question_answers in_sec rest).
               \<forall>j<length as. A (slot_name qid j) = Some (as ! j)"
              by (rule qa_rest)
            show "inq \<longrightarrow> (\<exists>qid. q = Some qid \<and> qid \<noteq> [] \<and>
              (\<forall>j<length (block_answers rest). A (slot_name qid (i + j)) = Some (block_answers rest ! j)))"
              using cur nh False by simp
            show "markers_owned in_sec inq rest" using own None qNone False by simp
            show "slots_agree rest" by (rule agr_rest)
            show "\<forall>x\<in>set rest. match_qid x \<noteq> None \<longrightarrow> match_question x \<noteq> None" by (rule hb_rest)
          qed
          then show ?thesis using False nq by (simp add: Cons save_plain)
        qed
      qed
    qed
  qed
qed

lemma join_append:
  "xs \<noteq> [] \<Longrightarrow> ys \<noteq> [] \<Longrightarrow> join sep (xs @ ys) = join sep xs @ sep @ join sep ys"
proof (induction xs)
  case Nil
  then show ?case by simp
next
  case (Cons x xs)
  show ?case
  proof (cases "xs = []")
    case True
    then show ?thesis using Cons.prems by (simp add: join_Cons)
  next
    case False
    then show ?thesis using Cons by (simp add: join_Cons)
  qed
qed

lemma tidy_slots_dropWhile: "tidy_slots ls \<Longrightarrow> tidy_slots (dropWhile P ls)"
  by (induction ls) auto

lemma strip_Nil [simp]: "strip [] = []"
  by (simp add: strip_def)

lemma trimmed_padded:
  "tidy_slots ls \<Longrightarrow>
   join [newline] (trimmed ls) = join [newline] (padded ls) \<and> (trimmed ls = [] \<longleftrightarrow> padded ls = [])"
proof (induction "length ls" arbitrary: ls rule: less_induct)
  case less
  show ?case
  proof (cases ls)
    case Nil
    then show ?thesis by simp
  next
    case (Cons l rest)
    show ?thesis
    proof (cases "is_answer_marker l")
      case False
      have "tidy_slots rest" using less.prems Cons by simp
      then have ih: "join [newline] (trimmed rest) = join [newline] (padded rest)"
          "trimmed rest = [] \<longleftrightarrow> padded rest = []"
        using less.hyps [of rest] Cons by simp_all
      show ?thesis
      proof (cases "trimmed rest = []")
        case True
        then show ?thesis using ih False by (simp add: Cons)
      next
        case nt: False
        then show ?thesis using ih False by (simp add: Cons join_Cons)
      qed
    next
      case True
      define c where "c = skipped_span rest"
      define R where "R = skip_old rest"
      have tr: "tidy_slots R"
        unfolding R_def skip_old_dropWhile using less.prems Cons by (simp add: tidy_slots_dropWhile)
      have "length R < length ls" using length_skip_old [of rest] by (simp add: R_def Cons)
      then have ih: "join [newline] (trimmed R) = join [newline] (padded R)"
          "trimmed R = [] \<longleftrightarrow> padded R = []"
        using less.hyps [of R] tr by simp_all
      have tail: "join [newline] ([] # trimmed R) = join [newline] ([] # padded R)"
      proof (cases "trimmed R = []")
        case True
        then show ?thesis using ih by simp
      next
        case False
        then show ?thesis using ih by (simp add: join_Cons)
      qed
      have tidy: "c = [] \<or> (join [newline] c \<noteq> [] \<and> strip (join [newline] c) = join [newline] c)"
        using less.prems Cons True by (simp add: c_def Let_def)
      have t: "trimmed ls = l # (if strip (join [newline] c) = [] then [[]] else [strip (join [newline] c), []]) @ trimmed R"
        using True by (simp add: Cons c_def R_def Let_def)
      have p: "padded ls = l # c @ [[]] @ padded R"
        using True by (simp add: Cons c_def R_def)
      show ?thesis
      proof (cases "c = []")
        case True
        have "trimmed ls = l # [] # trimmed R" using t True by simp
        moreover have "padded ls = l # [] # padded R" using p True by simp
        ultimately show ?thesis using tail by (simp add: join_Cons)
      next
        case False
        then have ok: "join [newline] c \<noteq> []" "strip (join [newline] c) = join [newline] c"
          using tidy by simp_all
        have "trimmed ls = l # join [newline] c # [] # trimmed R" using t ok by simp
        then have a: "join [newline] (trimmed ls)
            = l @ [newline] @ join [newline] c @ [newline] @ join [newline] ([] # trimmed R)"
          by (simp add: join_Cons)
        have "padded ls = l # (c @ ([] # padded R))" using p by simp
        then have "join [newline] (padded ls) = l @ [newline] @ join [newline] (c @ ([] # padded R))"
          using False by (simp add: join_Cons)
        also have "join [newline] (c @ ([] # padded R))
            = join [newline] c @ [newline] @ join [newline] ([] # padded R)"
          using False by (intro join_append) simp_all
        finally show ?thesis using a tail t p by simp
      qed
    qed
  qed
qed








lemma parse_lines_ignored:
  "cur_q s = None \<Longrightarrow> \<forall>l\<in>set ls. \<not> is_header l \<Longrightarrow> parse_lines s ls = Inr s"
proof (induction ls)
  case Nil
  then show ?case by simp
next
  case (Cons l ls)
  have "parse_line s l = Inr s"
    using Cons.prems not_header [of l] by (auto simp: parse_line_def)
  then show ?case using Cons by simp
qed

lemma marker_not_header: "is_answer_marker m \<Longrightarrow> \<not> is_header m"
  using section_not_marker question_not_marker by (auto simp: is_header_def)

lemma parse_line_marker:
  assumes "is_answer_marker m" "cur_q s \<noteq> None"
  shows "\<exists>s1. parse_line s m = Inr s1 \<and> cur_q s1 \<noteq> None \<and> collecting_answer s1"
proof -
  have "\<not> is_header m" using assms(1) by (rule marker_not_header)
  then have "match_section m = None" "match_question m = None"
    using not_header [of m] by auto
  then show ?thesis
    using assms by (auto simp: parse_line_def close_answer_def)
qed

section \<open>Facts about the migrator\<close>

lemma gen_questions_eq:
  "gen_questions blks k j qids (out, log) =
     (out @ concat (map (question_part k) (emitted blks j qids)),
      log @ map error_line (filter (\<lambda>i. map_of blks i = None) qids))"
proof (induction qids arbitrary: j out log)
  case Nil
  then show ?case by simp
next
  case (Cons i qids)
  show ?case
    by (cases "map_of blks i") (simp_all add: Cons.IH question_part_def)
qed

lemma gen_sections_eq:
  "gen_sections blks k plan (out, log) =
     (out @ concat (map (section_part blks) (List.enumerate k plan)),
      log @ map error_line (filter (\<lambda>i. map_of blks i = None) (concat (map snd plan))))"
proof (induction plan arbitrary: k out log)
  case Nil
  then show ?case by simp
next
  case (Cons e plan)
  obtain t qids where e: "e = (t, qids)" by (cases e)
  show ?case
    by (simp add: e gen_questions_eq Cons.IH section_part_def)
qed

lemma warn_unmapped_eq:
  "warn_unmapped blks M R ids log =
     log @ concat (map (\<lambda>i. case map_of blks i of Some b \<Rightarrow> [warning_line i (blk_title b)] | None \<Rightarrow> [])
                    (filter (\<lambda>i. i \<notin> M \<and> i \<notin> R) ids))"
proof (induction ids arbitrary: log)
  case Nil
  then show ?case by simp
next
  case (Cons i ids)
  show ?case by (simp add: Cons.IH split: option.splits)
qed

lemma emitted_positions:
  "map fst (emitted blks j qids) =
     map fst (filter (\<lambda>p. map_of blks (snd p) \<noteq> None) (List.enumerate j qids))"
proof (induction qids arbitrary: j)
  case Nil
  then show ?case by simp
next
  case (Cons i qids)
  show ?case by (cases "map_of blks i") (simp_all add: Cons.IH)
qed

lemma emitted_all:
  "\<forall>i\<in>set qids. map_of blks i \<noteq> None \<Longrightarrow> map fst (emitted blks j qids) = [j..<j + length qids]"
proof (induction qids arbitrary: j)
  case Nil
  then show ?case by simp
next
  case (Cons i qids)
  then obtain b where "map_of blks i = Some b" by auto
  moreover have "map fst (emitted blks (Suc j) qids) = [Suc j..<Suc j + length qids]"
    using Cons.prems by (intro Cons.IH) simp
  moreover have "[j..<j + length (i # qids)] = j # [Suc j..<Suc j + length qids]"
  proof -
    have "j < j + length (i # qids)" by simp
    then have "[j..<j + length (i # qids)] = j # [Suc j..<j + length (i # qids)]"
      by (rule upt_conv_Cons)
    moreover have "j + length (i # qids) = Suc j + length qids" by simp
    ultimately show ?thesis by (simp only:)
  qed
  ultimately show ?case by (simp only: emitted.simps option.case list.map fst_conv Suc_eq_plus1)
qed

lemma keys_dict_set: "fst ` set (dict_set k v d) = insert k (fst ` set d)"
proof (induction d)
  case Nil
  then show ?case by simp
next
  case (Cons p d)
  obtain k' v' where p: "p = (k', v')" by (cases p)
  show ?case
  proof (cases "k' = k")
    case True
    then show ?thesis by (simp add: p)
  next
    case False
    then show ?thesis using Cons by (simp add: p insert_commute)
  qed
qed

lemma not_digit_dot: "\<not> is_digit (CHR ''.'')"
  by (simp add: is_digit_def)

text \<open>Every id of \<^verbatim>\<open>parse_raw\<close> is two non-empty runs of digits with a dot between them, and
  such an id has a sort key unless one of the runs is too long for \<^verbatim>\<open>int\<close>.\<close>

definition shaped :: "string \<Rightarrow> bool" where
  "shaped k =
     (\<exists>d1 d2. k = d1 @ ''.'' @ d2 \<and> d1 \<noteq> [] \<and> d2 \<noteq> [] \<and> list_all is_digit d1 \<and> list_all is_digit d2)"

lemma digits_free: "list_all is_digit d \<Longrightarrow> CHR ''.'' \<notin> set d"
  using not_digit_dot by (auto simp: list_all_iff)

lemma shaped_split:
  assumes "list_all is_digit d1" "list_all is_digit d2"
  shows "split (CHR ''.'') (d1 @ ''.'' @ d2) = [d1, d2]"
  using assms digits_free by (simp add: split_append_sep split_free)

lemma id_key_shaped:
  assumes "shaped k"
  shows "(id_fits k \<longrightarrow> (\<exists>mn. id_key k = Inr mn)) \<and> (\<not> id_fits k \<longrightarrow> id_key k = Inl ValueError)"
proof -
  obtain d1 d2 where k: "k = d1 @ ''.'' @ d2" and d: "d1 \<noteq> []" "d2 \<noteq> []"
      "list_all is_digit d1" "list_all is_digit d2"
    using assms unfolding shaped_def by blast
  have sp: "split (CHR ''.'') k = [d1, d2]"
    unfolding k using d(3,4) by (rule shaped_split)
  have p1: "(py_int d1 \<noteq> None) = (length d1 \<le> int_max_str_digits)"
    using d(1,3) by (rule py_int_digits)
  have p2: "(py_int d2 \<noteq> None) = (length d2 \<le> int_max_str_digits)"
    using d(2,4) by (rule py_int_digits)
  show ?thesis
    using p1 p2 by (auto simp: id_key_def id_fits_def sp split: option.splits)
qed

lemma shaped_question:
  "match_question l = Some (qid, t) \<Longrightarrow> shaped qid"
proof -
  assume a: "match_question l = Some (qid, t)"
  define r where "r = drop 4 l"
  define d1 where "d1 = takeWhile is_digit r"
  define d2 where "d2 = takeWhile is_digit (drop 1 (dropWhile is_digit r))"
  have "qid = d1 @ ''.'' @ d2 \<and> d1 \<noteq> [] \<and> d2 \<noteq> []"
    using a unfolding match_question_def r_def d1_def d2_def
    by (auto simp: Let_def split: if_splits)
  moreover have "list_all is_digit d1" "list_all is_digit d2"
    unfolding d1_def d2_def by (auto simp: list_all_iff dest: set_takeWhileD)
  ultimately show ?thesis unfolding shaped_def by blast
qed

definition good_keys :: "(string \<times> block) list \<Rightarrow> bool" where
  "good_keys blks = (\<forall>k\<in>fst ` set blks. shaped k)"

lemma good_keys_dict_set:
  "good_keys d \<Longrightarrow> shaped k \<Longrightarrow> good_keys (dict_set k v d)"
  unfolding good_keys_def keys_dict_set by blast

lemma good_keys_flush: "good_keys (blocks s) \<Longrightarrow> good_keys (blocks (flush s))"
proof (cases "cur_id s")
  case None
  assume "good_keys (blocks s)"
  then show ?thesis using None by (simp add: flush_def)
next
  case (Some i)
  assume g: "good_keys (blocks s)"
  show ?thesis
  proof (cases "map_of (blocks s) i")
    case None
    then show ?thesis using g Some by (simp add: flush_def)
  next
    case b: (Some b)
    then have "i \<in> fst ` set (blocks s)"
      by (metis map_of_eq_None_iff option.distinct(1))
    then have "shaped i" using g unfolding good_keys_def by blast
    then show ?thesis
      using g Some b by (simp add: flush_def good_keys_dict_set)
  qed
qed

lemma good_keys_raw_line: "good_keys (blocks s) \<Longrightarrow> good_keys (blocks (raw_line s l))"
proof (cases "match_question l")
  case None
  assume "good_keys (blocks s)"
  then show ?thesis using None good_keys_flush [of s] by (simp add: raw_line_def)
next
  case (Some a)
  assume g: "good_keys (blocks s)"
  obtain qid t where a: "a = (qid, t)" by (cases a)
  have "shaped qid" using Some a shaped_question by blast
  then show ?thesis
    using Some a good_keys_flush [OF g]
    by (simp add: raw_line_def Let_def good_keys_dict_set)
qed

lemma good_keys_foldl: "good_keys (blocks s) \<Longrightarrow> good_keys (blocks (foldl raw_line s ls))"
  by (induction ls arbitrary: s) (auto simp: good_keys_raw_line)

lemma good_keys_parse_raw: "good_keys (parse_raw txt)"
  unfolding parse_raw_def
  by (intro good_keys_flush good_keys_foldl) (simp add: good_keys_def)

lemma keyed_ok:
  "\<forall>x\<in>set xs. shaped x \<and> id_fits x \<Longrightarrow> \<exists>ks. keyed xs = Inr ks \<and> map snd ks = xs"
proof (induction xs)
  case Nil
  then show ?case by simp
next
  case (Cons x xs)
  have "\<exists>mn. id_key x = Inr mn" using Cons.prems id_key_shaped [of x] by simp
  then obtain mn ks where "id_key x = Inr mn" "keyed xs = Inr ks" "map snd ks = xs"
    using Cons by auto
  then show ?case by simp
qed

lemma keyed_error:
  "\<forall>x\<in>set xs. shaped x \<Longrightarrow> \<exists>x\<in>set xs. \<not> id_fits x \<Longrightarrow> keyed xs = Inl ValueError"
proof (induction xs)
  case Nil
  then show ?case by simp
next
  case (Cons x xs)
  show ?case
  proof (cases "id_fits x")
    case True
    then obtain mn where mn: "id_key x = Inr mn"
      using Cons.prems(1) id_key_shaped [of x] by auto
    have "keyed xs = Inl ValueError"
      using Cons.prems True by (intro Cons.IH) auto
    then show ?thesis using mn by simp
  next
    case False
    then have "id_key x = Inl ValueError"
      using Cons.prems(1) id_key_shaped [of x] by auto
    then show ?thesis by simp
  qed
qed

lemma sorted_ids_ok:
  assumes "good_keys blks" and "list_all id_fits (map fst blks)"
  shows "\<exists>ids. sorted_ids (map fst blks) = Inr ids \<and> set ids = fst ` set blks"
proof -
  have "\<forall>x\<in>set (map fst blks). shaped x \<and> id_fits x"
    using assms by (auto simp: good_keys_def list_all_iff)
  then obtain ks where ks: "keyed (map fst blks) = Inr ks" "map snd ks = map fst blks"
    using keyed_ok by blast
  have "set (map snd (sort_key fst ks)) = set (map snd ks)"
    by simp
  then show ?thesis using ks by (simp add: sorted_ids_def)
qed

lemma sorted_ids_error:
  assumes "good_keys blks" and "\<not> list_all id_fits (map fst blks)"
  shows "sorted_ids (map fst blks) = Inl ValueError"
proof -
  have "\<forall>x\<in>set (map fst blks). shaped x"
    using assms(1) by (auto simp: good_keys_def)
  moreover have "\<exists>x\<in>set (map fst blks). \<not> id_fits x"
    using assms(2) by (auto simp: list_all_iff)
  ultimately have "keyed (map fst blks) = Inl ValueError"
    by (rule keyed_error)
  then show ?thesis by (simp add: sorted_ids_def)
qed

section \<open>Numbers that \<^verbatim>\<open>int\<close> refuses\<close>


lemma long_question:
  assumes "d \<noteq> []" "list_all is_digit d"
  shows "match_question (''### '' @ d @ ''.1 T'') = Some (d @ ''.1'', ''T'')"
proof -
  have p: "\<And>x. x \<in> set d \<Longrightarrow> is_digit x" using assms(2) by (simp add: list_all_iff)
  have nd: "\<not> is_digit (CHR ''.'')" "is_digit (CHR ''1'')" "\<not> is_digit (CHR '' '')"
    by (simp_all add: is_digit_def)
  have t: "takeWhile is_digit (d @ ''.1 T'') = d"
    using p nd by (simp add: takeWhile_append2)
  have r: "dropWhile is_digit (d @ ''.1 T'') = ''.1 T''"
    using p nd by (simp add: dropWhile_append2)
  show ?thesis
    using assms(1) nd by (simp add: match_question_def t r dot_run_def newline_def)
qed

lemma sevens: "replicate 4301 (CHR ''7'') \<noteq> []" "list_all is_digit (replicate 4301 (CHR ''7''))"
  by (simp_all add: list_all_iff is_digit_def)


lemma migrate_error:
  "\<not> list_all id_fits (map fst (parse_raw (read_text txt))) \<Longrightarrow>
   migrate plan removed txt = Inl ValueError"
  using sorted_ids_error [OF good_keys_parse_raw]
  by (simp add: migrate_def generate_plan_def Let_def)

lemma long_id_error:
  "migrate plan removed (''### '' @ replicate 4301 (CHR ''7'') @ ''.1 T'') = Inl ValueError"
proof -
  define d where "d = replicate 4301 (CHR ''7'')"
  define x where "x = ''### '' @ d @ ''.1 T''"
  have dd: "d \<noteq> []" "list_all is_digit d" unfolding d_def by (rule sevens)+
  have m: "match_question x = Some (d @ ''.1'', ''T'')"
    unfolding x_def using dd by (rule long_question)
  have "carriage_return \<notin> set x" "newline \<notin> set x"
    by (auto simp: x_def d_def carriage_return_def newline_def)
  then have r: "read_text x = x" "split newline x = [x]"
    by (simp_all add: read_text_id split_free)
  have k: "map fst (parse_raw x) = [d @ ''.1'']"
    by (simp add: parse_raw_def r raw_line_def m flush_def Let_def)
  have o: "list_all is_digit ''1''" by (simp add: is_digit_def)
  have "split (CHR ''.'') (d @ ''.'' @ ''1'') = [d, ''1'']"
    using dd(2) o by (rule shaped_split)
  then have "\<not> id_fits (d @ ''.1'')"
    by (simp add: id_fits_def int_max_str_digits_def d_def)
  then have "\<not> list_all id_fits (map fst (parse_raw (read_text x)))"
    by (simp add: r k)
  then show ?thesis unfolding x_def [symmetric] d_def [symmetric] by (rule migrate_error)
qed

section \<open>Properties of the rewriter\<close>




text \<open>
  Claim C1 (the rewriter and the parser agree on slot extents), as the code has it. The two
  do not use the same rules. After every answer marker the rewriter skips the lines up to
  its first boundary (\<open>skipped_span\<close>), whether or not a question is current. The parser
  collects an answer only while a question is current: after a marker with no current
  question (before the first question header, or between a section header and the next
  question header) it buffers nothing, and the rewriter still removes the lines. While a
  question is current, the rewriter stops at lines that the parser buffers into the
  answer: a line that starts with \<^verbatim>\<open>**\<close>, a table row, and a line that starts with
  \<^verbatim>\<open>---\<close>, \<^verbatim>\<open>### \<close>, \<^verbatim>\<open>## \<close> or \<^verbatim>\<open>If (x)\<close> without being a divider, a header or a
  sub-prompt for the parser; and the parser ends a slot at a divider with white space
  before it, which the rewriter skips. What holds: after a marker met while a question is
  current, on lines none of which is such an indented divider, the lines the rewriter
  skips are a prefix of the lines the parser buffers from the same point (and the parser
  does buffer exactly \<open>buffered_span\<close>, and closes the slot at the line after it unless that
  line is a section header whose number \<^verbatim>\<open>int\<close> refuses).
\<close>

theorem slot_extents:
  assumes "is_answer_marker m"
  shows "ls = skipped_span ls @ skip_old ls
       \<and> save_loop answers cur_qid answer_idx (m # ls) [] =
           m # new_slot answers (slot_key cur_qid answer_idx)
             @ save_loop answers cur_qid (answer_idx + 1) (skip_old ls) []
       \<and> (cur_q s \<noteq> None \<and> (\<forall>l\<in>set ls. strip l = ''---'' \<longrightarrow> startswith l ''---'') \<longrightarrow>
            prefix (skipped_span ls) (buffered_span ls)
            \<and> (\<exists>s1. parse_line s m = Inr s1
                 \<and> parse_lines s1 (buffered_span ls) =
                     Inr (s1\<lparr>answer_buf := answer_buf s1 @ buffered_span ls\<rparr>)
                 \<and> (\<forall>l rest. ls = buffered_span ls @ l # rest \<and> int_fits l \<longrightarrow>
                      (\<exists>s'. parse_line (s1\<lparr>answer_buf := answer_buf s1 @ buffered_span ls\<rparr>) l = Inr s'
                            \<and> answer_buf s' = []))))
       \<and> (cur_q s = None \<and> (\<forall>l\<in>set ls. \<not> is_header l) \<longrightarrow> parse_lines s (m # ls) = Inr s)"
proof -
  have a: "ls = skipped_span ls @ skip_old ls"
    by (simp add: skipped_span_takeWhile skip_old_dropWhile)
  have r: "save_loop answers cur_qid answer_idx (m # ls) [] =
           m # new_slot answers (slot_key cur_qid answer_idx)
             @ save_loop answers cur_qid (answer_idx + 1) (skip_old ls) []"
    using assms
      save_loop_acc [of answers cur_qid "Suc answer_idx" "skip_old ls"
        "[m] @ new_slot answers (slot_key cur_qid answer_idx)"]
    by (simp add: save_loop_marker)
  have p: "prefix (skipped_span ls) (buffered_span ls)
            \<and> (\<exists>s1. parse_line s m = Inr s1
                 \<and> parse_lines s1 (buffered_span ls) =
                     Inr (s1\<lparr>answer_buf := answer_buf s1 @ buffered_span ls\<rparr>)
                 \<and> (\<forall>l rest. ls = buffered_span ls @ l # rest \<and> int_fits l \<longrightarrow>
                      (\<exists>s'. parse_line (s1\<lparr>answer_buf := answer_buf s1 @ buffered_span ls\<rparr>) l = Inr s'
                            \<and> answer_buf s' = [])))"
    if q: "cur_q s \<noteq> None" and nd: "\<forall>l\<in>set ls. strip l = ''---'' \<longrightarrow> startswith l ''---''"
  proof -
    have "\<forall>l\<in>set ls. \<not> is_boundary l \<longrightarrow> \<not> ends_slot l"
      using nd ends_slot_boundary by blast
    then have b: "prefix (skipped_span ls) (buffered_span ls)"
      unfolding skipped_span_takeWhile buffered_span_def by (rule takeWhile_prefix_mono)
    obtain s1 where s1: "parse_line s m = Inr s1" "cur_q s1 \<noteq> None" "collecting_answer s1"
      using parse_line_marker [OF assms q] by blast
    have "\<forall>l\<in>set (buffered_span ls). \<not> ends_slot l"
      by (auto simp: buffered_span_def dest: set_takeWhileD)
    then have c: "parse_lines s1 (buffered_span ls) =
        Inr (s1\<lparr>answer_buf := answer_buf s1 @ buffered_span ls\<rparr>)"
      using s1(2,3) by (simp add: parse_lines_buffers)
    have d: "\<exists>s'. parse_line (s1\<lparr>answer_buf := answer_buf s1 @ buffered_span ls\<rparr>) l = Inr s'
                  \<and> answer_buf s' = []"
      if "ls = buffered_span ls @ l # rest" and "int_fits l" for l rest
    proof -
      have "dropWhile (\<lambda>l. \<not> ends_slot l) ls = l # rest"
        using that(1) takeWhile_dropWhile_id [of "\<lambda>l. \<not> ends_slot l" ls]
        unfolding buffered_span_def by (metis same_append_eq)
      then have "ends_slot l"
        using hd_dropWhile [of "\<lambda>l. \<not> ends_slot l" ls] by auto
      then show ?thesis
        using s1(2,3) that(2) by (intro parse_line_closes) auto
    qed
    show ?thesis using b s1(1) c d by blast
  qed
  have u: "parse_lines s (m # ls) = Inr s"
    if "cur_q s = None" and "\<forall>l\<in>set ls. \<not> is_header l"
    using that marker_not_header [OF assms] by (intro parse_lines_ignored) auto
  show ?thesis using a r p u by blast
qed

theorem slot_extents_witness:
  "skipped_span [''yes'', ''**really**'', ''---'', ''tail''] = [''yes'']
   \<and> buffered_span [''yes'', ''**really**'', ''---'', ''tail''] = [''yes'', ''**really**'']
   \<and> prefix (skipped_span [''yes'', ''**really**'', ''---'', ''tail''])
         (buffered_span [''yes'', ''**really**'', ''---'', ''tail''])
   \<and> parse_lines init_pstate (''Your answer:'' # [''yes'', ''**really**'', ''---'', ''tail''])
       = Inr init_pstate"
proof -
  define s where "s = init_pstate
    \<lparr>cur_q := Some \<lparr>q_id = ''1.1'', q_title = ''Q'', q_description = [], q_options = [],
                     q_table = None, q_answers = [], q_sub_prompts = []\<rparr>\<rparr>"
  have h0: "is_answer_marker ''Your answer:''" by code_simp
  have h1: "\<forall>l\<in>set [''yes'', ''**really**'', ''---'', ''tail''].
              strip l = ''---'' \<longrightarrow> startswith l ''---''"
    by code_simp
  have h2: "cur_q s \<noteq> None"
    by (simp add: s_def)
  have h3: "cur_q init_pstate = None"
    by (simp add: init_pstate_def)
  have h4: "\<forall>l\<in>set [''yes'', ''**really**'', ''---'', ''tail'']. \<not> is_header l"
    by code_simp
  have "prefix (skipped_span [''yes'', ''**really**'', ''---'', ''tail''])
         (buffered_span [''yes'', ''**really**'', ''---'', ''tail''])"
    using slot_extents [OF h0, where ls = "[''yes'', ''**really**'', ''---'', ''tail'']" and s = s]
      h1 h2 by blast
  moreover have "parse_lines init_pstate (''Your answer:'' # [''yes'', ''**really**'', ''---'', ''tail''])
       = Inr init_pstate"
    using slot_extents [OF h0, where ls = "[''yes'', ''**really**'', ''---'', ''tail'']"
        and s = init_pstate] h3 h4 by blast
  moreover have "skipped_span [''yes'', ''**really**'', ''---'', ''tail''] = [''yes'']"
    by code_simp
  moreover have "buffered_span [''yes'', ''**really**'', ''---'', ''tail''] = [''yes'', ''**really**'']"
    by code_simp
  ultimately show ?thesis by blast
qed

theorem slot_extents_counterexample:
  "is_boundary ''**yes** please'' \<and> \<not> ends_slot ''**yes** please''
   \<and> ends_slot '' ---'' \<and> \<not> is_boundary '' ---''
   \<and> parse_markdown (''## 1. S'' @ [newline] @ ''### 1.1 Q'' @ [newline] @ ''Your answer:'' @ [newline]
         @ ''**yes** please'' @ [newline] @ ''---'')
       = Inr [\<lparr>sec_id = 1, sec_title = ''S'', sec_questions =
                [\<lparr>q_id = ''1.1'', q_title = ''Q'', q_description = [], q_options = [],
                  q_table = None, q_answers = [''**yes** please''], q_sub_prompts = []\<rparr>]\<rparr>]
   \<and> save_answers Map.empty
         (''## 1. S'' @ [newline] @ ''### 1.1 Q'' @ [newline] @ ''Your answer:'' @ [newline]
           @ ''**yes** please'' @ [newline] @ ''---'')
       = ''## 1. S'' @ [newline] @ ''### 1.1 Q'' @ [newline] @ ''Your answer:'' @ [newline] @ [newline]
           @ ''**yes** please'' @ [newline] @ ''---''
   \<and> parse_markdown (''## 1. S'' @ [newline] @ ''Your answer:'' @ [newline]
         @ ''Section intro text.'' @ [newline] @ ''### 1.1 Q'')
       = Inr [\<lparr>sec_id = 1, sec_title = ''S'', sec_questions =
                [\<lparr>q_id = ''1.1'', q_title = ''Q'', q_description = [], q_options = [],
                  q_table = None, q_answers = [], q_sub_prompts = []\<rparr>]\<rparr>]
   \<and> save_answers Map.empty
         (''## 1. S'' @ [newline] @ ''Your answer:'' @ [newline]
           @ ''Section intro text.'' @ [newline] @ ''### 1.1 Q'')
       = ''## 1. S'' @ [newline] @ ''Your answer:'' @ [newline] @ [newline] @ ''### 1.1 Q''"
  by code_simp







text \<open>
  Claim C3 (round-trip identity), as the code has it. The parser strips every answer, so
  what the rewriter writes back is the stripped text: white space and blank lines at
  either end of a slot are not reproduced, and a document whose answer starts with two
  spaces does not come back byte for byte. Nor do carriage returns: both tools read them
  as line breaks and the rewriter writes line feeds. What holds, on the lines as
  \<^verbatim>\<open>read_text\<close> gives them (the lines of the file itself when it has no carriage return):
  let every question header follow a section header and every marker follow a question
  header of its section, let the rewriter and the parser agree on the extent of every
  slot, and let no line look like a question header to the rewriter only. Then rewriting
  with a map that gives every \<^verbatim>\<open>"<questionId>_<slotIndex>"\<close> the answer of the parsed model
  yields those lines with every slot's content stripped and followed by one empty line
  (\<open>trimmed\<close>); and when the slots are tidy that is those lines but for the one empty line
  after each slot (\<open>padded\<close>).
\<close>

theorem round_trip:
  assumes "parse_markdown txt = Inr doc"
    and "\<forall>q\<in>set (concat (map sec_questions doc)). \<forall>i<length (q_answers q).
           answers (slot_name (q_id q) i) = Some (q_answers q ! i)"
    and "markers_owned False False (file_lines txt)"
    and "slots_agree (file_lines txt)"
    and "\<forall>l\<in>set (file_lines txt). match_qid l \<noteq> None \<longrightarrow> match_question l \<noteq> None"
  shows "save_answers answers txt = join [newline] (trimmed (file_lines txt))
       \<and> (tidy_slots (file_lines txt) \<longrightarrow>
            save_answers answers txt = join [newline] (padded (file_lines txt)))
       \<and> (carriage_return \<notin> set txt \<longrightarrow> file_lines txt = split newline txt)"
proof -
  have da: "doc_answers doc = question_answers False (file_lines txt)"
    using assms(1) by (rule parse_markdown_answers)
  have qa: "\<forall>(qid, as) \<in> set (question_answers False (file_lines txt)).
             \<forall>j<length as. answers (slot_name qid j) = Some (as ! j)"
    unfolding da [symmetric] doc_answers_def using assms(2) by auto
  have "save_loop answers None 0 (file_lines txt) [] = trimmed (file_lines txt)"
    using qa _ assms(3,4,5) by (rule round_trip_loop) simp
  then have a: "save_answers answers txt = join [newline] (trimmed (file_lines txt))"
    by (simp add: save_answers_def)
  then show ?thesis using trimmed_padded file_lines_id by auto
qed

theorem round_trip_witness:
  "save_answers [''1.1_0'' \<mapsto> ''yes'' @ [newline] @ ''indeed'', ''1.2_0'' \<mapsto> []] example_doc
   = ''## 1. S'' @ [newline] @ ''### 1.1 Q'' @ [newline] @ ''Pick one.'' @ [newline]
     @ ''Your answer:'' @ [newline] @ ''yes'' @ [newline] @ ''indeed'' @ [newline] @ [newline] @ ''---'' @ [newline]
     @ ''### 1.2 R'' @ [newline] @ ''Your answer:'' @ [newline] @ [newline] @ ''---''
   \<and> file_lines example_doc = split newline example_doc"
proof -
  define doc where "doc = [\<lparr>sec_id = 1, sec_title = ''S'', sec_questions =
       [\<lparr>q_id = ''1.1'', q_title = ''Q'', q_description = ''Pick one.'', q_options = [],
         q_table = None, q_answers = [''yes'' @ [newline] @ ''indeed''], q_sub_prompts = []\<rparr>,
        \<lparr>q_id = ''1.2'', q_title = ''R'', q_description = [], q_options = [],
         q_table = None, q_answers = [[]], q_sub_prompts = []\<rparr>]\<rparr>]"
  have h1: "parse_markdown example_doc = Inr doc"
    unfolding doc_def by code_simp
  have k: "slot_name ''1.1'' 0 = ''1.1_0''" "slot_name ''1.2'' 0 = ''1.2_0''"
    by code_simp+
  have h2: "\<forall>q\<in>set (concat (map sec_questions doc)). \<forall>i<length (q_answers q).
      [''1.1_0'' \<mapsto> ''yes'' @ [newline] @ ''indeed'', ''1.2_0'' \<mapsto> []] (slot_name (q_id q) i)
        = Some (q_answers q ! i)"
    by (simp add: doc_def k)
  have h3: "markers_owned False False (file_lines example_doc)" by code_simp
  have h4: "slots_agree (file_lines example_doc)" by code_simp
  have h5: "\<forall>l\<in>set (file_lines example_doc). match_qid l \<noteq> None \<longrightarrow> match_question l \<noteq> None"
    by code_simp
  have h6: "tidy_slots (file_lines example_doc)" by code_simp
  have h7: "carriage_return \<notin> set example_doc" by code_simp
  have "save_answers [''1.1_0'' \<mapsto> ''yes'' @ [newline] @ ''indeed'', ''1.2_0'' \<mapsto> []] example_doc
      = join [newline] (padded (file_lines example_doc))"
    using round_trip [OF h1 h2 h3 h4 h5] h6 by blast
  moreover have "join [newline] (padded (file_lines example_doc))
     = ''## 1. S'' @ [newline] @ ''### 1.1 Q'' @ [newline] @ ''Pick one.'' @ [newline]
     @ ''Your answer:'' @ [newline] @ ''yes'' @ [newline] @ ''indeed'' @ [newline] @ [newline] @ ''---'' @ [newline]
     @ ''### 1.2 R'' @ [newline] @ ''Your answer:'' @ [newline] @ [newline] @ ''---''"
    by code_simp
  moreover have "file_lines example_doc = split newline example_doc"
    using round_trip [OF h1 h2 h3 h4 h5] h7 by blast
  ultimately show ?thesis by simp
qed

theorem round_trip_counterexample:
  "parse_markdown (''## 1. S'' @ [newline] @ ''### 1.1 Q'' @ [newline] @ ''Your answer:'' @ [newline]
      @ ''  two spaces first'' @ [newline] @ ''---'')
   = Inr [\<lparr>sec_id = 1, sec_title = ''S'', sec_questions =
       [\<lparr>q_id = ''1.1'', q_title = ''Q'', q_description = [], q_options = [],
         q_table = None, q_answers = [''two spaces first''], q_sub_prompts = []\<rparr>]\<rparr>]
   \<and> save_answers [''1.1_0'' \<mapsto> ''two spaces first'']
       (''## 1. S'' @ [newline] @ ''### 1.1 Q'' @ [newline] @ ''Your answer:'' @ [newline]
          @ ''  two spaces first'' @ [newline] @ ''---'')
     = ''## 1. S'' @ [newline] @ ''### 1.1 Q'' @ [newline] @ ''Your answer:'' @ [newline]
          @ ''two spaces first'' @ [newline] @ [newline] @ ''---''
   \<and> join [newline] (padded (split newline
       (''## 1. S'' @ [newline] @ ''### 1.1 Q'' @ [newline] @ ''Your answer:'' @ [newline]
          @ ''  two spaces first'' @ [newline] @ ''---'')))
     = ''## 1. S'' @ [newline] @ ''### 1.1 Q'' @ [newline] @ ''Your answer:'' @ [newline]
          @ ''  two spaces first'' @ [newline] @ [newline] @ ''---''
   \<and> parse_markdown (''## 1. S'' @ [carriage_return, newline] @ ''### 1.1 Q'' @ [carriage_return, newline]
          @ ''Your answer:'' @ [carriage_return, newline] @ ''---'')
     = Inr [\<lparr>sec_id = 1, sec_title = ''S'', sec_questions =
         [\<lparr>q_id = ''1.1'', q_title = ''Q'', q_description = [], q_options = [],
           q_table = None, q_answers = [[]], q_sub_prompts = []\<rparr>]\<rparr>]
   \<and> save_answers [''1.1_0'' \<mapsto> []]
       (''## 1. S'' @ [carriage_return, newline] @ ''### 1.1 Q'' @ [carriage_return, newline]
          @ ''Your answer:'' @ [carriage_return, newline] @ ''---'')
     = ''## 1. S'' @ [newline] @ ''### 1.1 Q'' @ [newline] @ ''Your answer:'' @ [newline] @ [newline]
          @ ''---''"
  by code_simp

section \<open>Properties of the parser\<close>

text \<open>
  Claim C7 (default-option invariant), as the code has it. \<^verbatim>\<open>_process_body\<close> makes one option
  for every body line of an option shape, in order, and the option is a default exactly when
  its line has the bold shape \<^verbatim>\<open>- **(x) text**extra\<close>. Nothing limits the number of such
  lines: a question has as many default options as it has bold option lines. For a whole
  document: whenever the parser returns a document (it does when no section header has a
  number that \<^verbatim>\<open>int\<close> refuses), the default flags of the options of its questions, in
  order, are those of the option lines among the body lines of each question.
\<close>

theorem default_flags:
  "map opt_default (q_options (process_body question ls)) =
     map (\<lambda>l. match_default_option l \<noteq> None)
       (filter (\<lambda>l. match_default_option l \<noteq> None \<or> match_option l \<noteq> None) ls)
   \<and> length (filter opt_default (q_options (process_body question ls))) =
       length (filter (\<lambda>l. match_default_option l \<noteq> None) ls)
   \<and> (parse_markdown txt = Inr doc \<longrightarrow>
         map (\<lambda>q. map opt_default (q_options q)) (doc_questions doc) =
           map (\<lambda>b. case b of (qid, title, rest) \<Rightarrow>
                  map (\<lambda>l. match_default_option l \<noteq> None)
                    (filter (\<lambda>l. match_default_option l \<noteq> None \<or> match_option l \<noteq> None)
                       (body_lines False rest)))
             (question_blocks False (file_lines txt)))
   \<and> (list_all int_fits (file_lines txt) \<longrightarrow> (\<exists>d. parse_markdown txt = Inr d))"
proof -
  have a: "map opt_default (q_options (process_body q xs)) =
     map (\<lambda>l. match_default_option l \<noteq> None)
       (filter (\<lambda>l. match_default_option l \<noteq> None \<or> match_option l \<noteq> None) xs)" for q xs
    by (simp add: process_body_def Let_def options_foldl)
  have "length (filter opt_default (q_options (process_body question ls)))
      = length (filter (\<lambda>b. b) (map opt_default (q_options (process_body question ls))))"
    by (simp only: filter_map_id)
  also have "\<dots> = length (filter (\<lambda>l. match_default_option l \<noteq> None)
       (filter (\<lambda>l. match_default_option l \<noteq> None \<or> match_option l \<noteq> None) ls))"
    unfolding a by (simp only: filter_map_id)
  also have "\<dots> = length (filter (\<lambda>l. match_default_option l \<noteq> None) ls)"
    by (simp add: conj_commute cong: conj_cong)
  finally have b: "length (filter opt_default (q_options (process_body question ls))) =
       length (filter (\<lambda>l. match_default_option l \<noteq> None) ls)" .
  have f: "map opt_default (q_options (question_of x)) =
      (case x of (qid, title, rest) \<Rightarrow>
         map (\<lambda>l. match_default_option l \<noteq> None)
           (filter (\<lambda>l. match_default_option l \<noteq> None \<or> match_option l \<noteq> None)
              (body_lines False rest)))" for x
    unfolding question_of_def by (cases x) (simp only: prod.case a)
  have c: "map (\<lambda>q. map opt_default (q_options q)) (doc_questions doc) =
             map (\<lambda>b. case b of (qid, title, rest) \<Rightarrow>
                    map (\<lambda>l. match_default_option l \<noteq> None)
                      (filter (\<lambda>l. match_default_option l \<noteq> None \<or> match_option l \<noteq> None)
                         (body_lines False rest)))
               (question_blocks False (file_lines txt))"
    if "parse_markdown txt = Inr doc"
    unfolding parse_markdown_questions [OF that] by (simp add: f)
  have d: "list_all int_fits (file_lines txt) \<longrightarrow> (\<exists>d. parse_markdown txt = Inr d)"
    using parse_markdown_total by blast
  show ?thesis using a b c d by blast
qed

theorem default_flags_witness:
  "map opt_default (q_options (process_body
      \<lparr>q_id = ''1.1'', q_title = ''Q'', q_description = [], q_options = [], q_table = None,
       q_answers = [], q_sub_prompts = []\<rparr>
      [''Pick one.'', ''- **(a) fast** (recommended)'', ''- (b) slow'', ''- **(C) both**'']))
   = [True, False, True]
   \<and> (\<exists>doc. parse_markdown (''## 1. S'' @ [newline] @ ''### 1.1 Q'' @ [newline] @ ''Pick one.'' @ [newline]
        @ ''- **(a) fast** (recommended)'' @ [newline] @ ''- (b) slow'' @ [newline] @ ''- **(C) both**''
        @ [newline] @ ''Your answer:'' @ [newline] @ ''- (d) mine'') = Inr doc
         \<and> map (\<lambda>q. map opt_default (q_options q)) (doc_questions doc) = [[True, False, True]])"
proof -
  define t where "t = ''## 1. S'' @ [newline] @ ''### 1.1 Q'' @ [newline] @ ''Pick one.'' @ [newline]
        @ ''- **(a) fast** (recommended)'' @ [newline] @ ''- (b) slow'' @ [newline] @ ''- **(C) both**''
        @ [newline] @ ''Your answer:'' @ [newline] @ ''- (d) mine''"
  have a: "map (\<lambda>l. match_default_option l \<noteq> None)
       (filter (\<lambda>l. match_default_option l \<noteq> None \<or> match_option l \<noteq> None)
          [''Pick one.'', ''- **(a) fast** (recommended)'', ''- (b) slow'', ''- **(C) both**''])
     = [True, False, True]"
    by code_simp
  have b: "map (\<lambda>b. case b of (qid, title, rest) \<Rightarrow>
                    map (\<lambda>l. match_default_option l \<noteq> None)
                      (filter (\<lambda>l. match_default_option l \<noteq> None \<or> match_option l \<noteq> None)
                         (body_lines False rest)))
               (question_blocks False (file_lines t))
     = [[True, False, True]]"
    unfolding t_def by code_simp
  have f: "list_all int_fits (file_lines t)"
    unfolding t_def by code_simp
  obtain doc where d: "parse_markdown t = Inr doc"
    using default_flags [where ?txt = t] f by blast
  have "map (\<lambda>q. map opt_default (q_options q)) (doc_questions doc) = [[True, False, True]]"
    using default_flags [where ?txt = t and doc = doc] d unfolding b by blast
  then have "parse_markdown t = Inr doc
         \<and> map (\<lambda>q. map opt_default (q_options q)) (doc_questions doc) = [[True, False, True]]"
    using d by simp
  then have "\<exists>doc. parse_markdown t = Inr doc
         \<and> map (\<lambda>q. map opt_default (q_options q)) (doc_questions doc) = [[True, False, True]]"
    by (rule exI)
  moreover have "map opt_default (q_options (process_body
      \<lparr>q_id = ''1.1'', q_title = ''Q'', q_description = [], q_options = [], q_table = None,
       q_answers = [], q_sub_prompts = []\<rparr>
      [''Pick one.'', ''- **(a) fast** (recommended)'', ''- (b) slow'', ''- **(C) both**'']))
   = [True, False, True]"
    using default_flags [where question = "\<lparr>q_id = ''1.1'', q_title = ''Q'', q_description = [],
       q_options = [], q_table = None, q_answers = [], q_sub_prompts = []\<rparr>"
       and ls = "[''Pick one.'', ''- **(a) fast** (recommended)'', ''- (b) slow'', ''- **(C) both**'']"]
    unfolding a by blast
  ultimately show ?thesis unfolding t_def by blast
qed

theorem default_flags_counterexample:
  "parse_markdown (''## 1. S'' @ [newline] @ ''### 1.1 Q'' @ [newline] @ ''- **(a) fast**'' @ [newline]
      @ ''- **(b) slow**'')
   = Inr [\<lparr>sec_id = 1, sec_title = ''S'', sec_questions =
       [\<lparr>q_id = ''1.1'', q_title = ''Q'', q_description = [],
         q_options = [\<lparr>opt_id = ''a'', opt_text = ''fast'', opt_default = True\<rparr>,
                      \<lparr>opt_id = ''b'', opt_text = ''slow'', opt_default = True\<rparr>],
         q_table = None, q_answers = [], q_sub_prompts = []\<rparr>]\<rparr>]"
  by code_simp




text \<open>
  Claim C10 (answer-count invariant). Whenever the parser returns a document (it does
  when no section header has a number that \<^verbatim>\<open>int\<close> refuses), its questions, in order, are
  the question headers that follow a section header, each with as many answers as there
  are answer-marker lines between its header and the next header or the end of the input.
\<close>

theorem answer_count:
  "(parse_markdown txt = Inr doc \<longrightarrow> answer_counts doc = marker_counts False (file_lines txt))
   \<and> (list_all int_fits (file_lines txt) \<longrightarrow> (\<exists>d. parse_markdown txt = Inr d))"
  using parse_markdown_counts parse_markdown_total by blast

theorem answer_count_witness:
  "\<exists>doc. parse_markdown (''## 1. S'' @ [newline] @ ''### 1.1 Q'' @ [newline] @ ''Your answer:''
        @ [newline] @ ''Your answers:'' @ [newline] @ ''x'' @ [newline] @ ''If (a), why'' @ [newline]
        @ ''Your answer:'' @ [newline] @ ''---'' @ [newline] @ ''### 1.2 R'' @ [newline] @ ''text'') = Inr doc
      \<and> answer_counts doc = [(''1.1'', 3), (''1.2'', 0)]"
proof -
  define t where "t = ''## 1. S'' @ [newline] @ ''### 1.1 Q'' @ [newline] @ ''Your answer:''
        @ [newline] @ ''Your answers:'' @ [newline] @ ''x'' @ [newline] @ ''If (a), why'' @ [newline]
        @ ''Your answer:'' @ [newline] @ ''---'' @ [newline] @ ''### 1.2 R'' @ [newline] @ ''text''"
  have c: "marker_counts False (file_lines t) = [(''1.1'', 3), (''1.2'', 0)]"
    unfolding t_def by code_simp
  have f: "list_all int_fits (file_lines t)"
    unfolding t_def by code_simp
  obtain doc where d: "parse_markdown t = Inr doc"
    using answer_count [where ?txt = t] f by blast
  have "answer_counts doc = [(''1.1'', 3), (''1.2'', 0)]"
    using answer_count [where ?txt = t and doc = doc] d unfolding c by blast
  then show ?thesis using d unfolding t_def by blast
qed

section \<open>Properties of the migrator\<close>

text \<open>
  Claim C9 (migrator validation), as the code has it. When every question id of the source
  has numbers of at most 4300 digits, the migration returns a document, whatever the plan
  and the removed set. What it does about a mismatch is print: one \<^verbatim>\<open>WARNING\<close> line for
  every id of the source that is in no plan entry and not removed (in the order of the
  ids' numbers), then one \<^verbatim>\<open>ERROR\<close> line for every id of the plan that the source does not
  have (in plan order). All of them are printed in the one run, and the document is
  written all the same, without the unmapped and the missing questions. On an id with a
  longer number the sort key raises before anything is printed or written.
\<close>

theorem migrate_reports:
  "list_all id_fits (map fst (parse_raw (read_text txt))) \<longrightarrow>
   (\<exists>ids log doc.
     sorted_ids (map fst (parse_raw (read_text txt))) = Inr ids
     \<and> set ids = fst ` set (parse_raw (read_text txt))
     \<and> migrate plan removed txt = Inr (log, doc)
     \<and> log =
         concat (map (\<lambda>i. case map_of (parse_raw (read_text txt)) i of
                            Some b \<Rightarrow> [warning_line i (blk_title b)] | None \<Rightarrow> [])
                   (filter (\<lambda>i. i \<notin> set (concat (map snd plan)) \<and> i \<notin> removed) ids))
         @ map error_line
             (filter (\<lambda>i. map_of (parse_raw (read_text txt)) i = None) (concat (map snd plan))))"
proof
  assume f: "list_all id_fits (map fst (parse_raw (read_text txt)))"
  obtain ids where ids: "sorted_ids (map fst (parse_raw (read_text txt))) = Inr ids"
      "set ids = fst ` set (parse_raw (read_text txt))"
    using sorted_ids_ok [OF good_keys_parse_raw f] by blast
  show "\<exists>ids log doc.
     sorted_ids (map fst (parse_raw (read_text txt))) = Inr ids
     \<and> set ids = fst ` set (parse_raw (read_text txt))
     \<and> migrate plan removed txt = Inr (log, doc)
     \<and> log =
         concat (map (\<lambda>i. case map_of (parse_raw (read_text txt)) i of
                            Some b \<Rightarrow> [warning_line i (blk_title b)] | None \<Rightarrow> [])
                   (filter (\<lambda>i. i \<notin> set (concat (map snd plan)) \<and> i \<notin> removed) ids))
         @ map error_line
             (filter (\<lambda>i. map_of (parse_raw (read_text txt)) i = None) (concat (map snd plan)))"
    using ids
    by (simp add: migrate_def generate_plan_def Let_def gen_sections_eq warn_unmapped_eq)
qed

theorem migrate_reports_witness:
  "\<exists>doc. migrate [(''New'', [''7.4'', ''9.9'', ''1.1''])] {} example_source =
     Inr ([''  WARNING: question 1.2 (Second) is not mapped!'', ''  ERROR: 9.9 not found in source!''], doc)"
proof -
  have f: "list_all id_fits (map fst (parse_raw (read_text example_source)))"
    by code_simp
  obtain ids log doc where
    a: "sorted_ids (map fst (parse_raw (read_text example_source))) = Inr ids"
    and b: "migrate [(''New'', [''7.4'', ''9.9'', ''1.1''])] {} example_source = Inr (log, doc)"
    and c: "log =
         concat (map (\<lambda>i. case map_of (parse_raw (read_text example_source)) i of
                            Some b \<Rightarrow> [warning_line i (blk_title b)] | None \<Rightarrow> [])
                   (filter (\<lambda>i. i \<notin> set (concat (map snd [(''New'', [''7.4'', ''9.9'', ''1.1''])])) \<and> i \<notin> {}) ids))
         @ map error_line (filter (\<lambda>i. map_of (parse_raw (read_text example_source)) i = None)
              (concat (map snd [(''New'', [''7.4'', ''9.9'', ''1.1''])])))"
    using migrate_reports [of example_source "[(''New'', [''7.4'', ''9.9'', ''1.1''])]" "{}"] f by blast
  have "sorted_ids (map fst (parse_raw (read_text example_source))) = Inr [''1.1'', ''1.2'', ''7.4'']"
    by code_simp
  then have ids: "ids = [''1.1'', ''1.2'', ''7.4'']" using a by simp
  have "concat (map (\<lambda>i. case map_of (parse_raw (read_text example_source)) i of
                            Some b \<Rightarrow> [warning_line i (blk_title b)] | None \<Rightarrow> [])
                   (filter (\<lambda>i. i \<notin> set (concat (map snd [(''New'', [''7.4'', ''9.9'', ''1.1''])])) \<and> i \<notin> {})
                      [''1.1'', ''1.2'', ''7.4'']))
         @ map error_line (filter (\<lambda>i. map_of (parse_raw (read_text example_source)) i = None)
              (concat (map snd [(''New'', [''7.4'', ''9.9'', ''1.1''])])))
     = [''  WARNING: question 1.2 (Second) is not mapped!'', ''  ERROR: 9.9 not found in source!'']"
    by code_simp
  then have "log = [''  WARNING: question 1.2 (Second) is not mapped!'', ''  ERROR: 9.9 not found in source!'']"
    using c ids by simp
  then show ?thesis using b by simp
qed

theorem migrate_reports_counterexample:
  "migrate [(''Kept'', [''1.1'', ''8.8''])] {} example_source =
     Inr ([''  WARNING: question 1.2 (Second) is not mapped!'',
           ''  WARNING: question 7.4 (Third) is not mapped!'',
           ''  ERROR: 8.8 not found in source!''],
          join [newline]
            (preamble @ [''---'', [], ''## 1. Kept'', [], ''### 1.1 First'', ''body a'', []] @ closing))
   \<and> migrate [(''Kept'', [''1.1''])] {} (''### '' @ replicate 4301 (CHR ''7'') @ ''.1 T'')
       = Inl ValueError"
proof -
  have a: "migrate [(''Kept'', [''1.1'', ''8.8''])] {} example_source =
     Inr ([''  WARNING: question 1.2 (Second) is not mapped!'',
           ''  WARNING: question 7.4 (Third) is not mapped!'',
           ''  ERROR: 8.8 not found in source!''],
          join [newline]
            (preamble @ [''---'', [], ''## 1. Kept'', [], ''### 1.1 First'', ''body a'', []] @ closing))"
    by code_simp
  show ?thesis using a long_id_error by blast
qed

text \<open>
  Claim C8 (renumbering is contiguous), as the code has it. When every question id of the
  source has numbers of at most 4300 digits, the output is the preamble, one part per plan
  entry and the closing lines; the entry at position \<open>k\<close> (from 1) gets the header
  \<^verbatim>\<open>## k. title\<close>, so the sections are numbered 1..N. A question header carries the
  position of its old id in the entry's list, counting the ids that the source does not
  have: the ordinals are 1..M without gaps when every id of the entry is in the source, and
  have a gap at every missing id otherwise.
\<close>

theorem migrate_numbering:
  "(list_all id_fits (map fst (parse_raw (read_text txt))) \<longrightarrow>
     (\<exists>log. migrate plan removed txt =
       Inr (log, join [newline]
                   (preamble
                      @ concat (map (section_part (parse_raw (read_text txt))) (List.enumerate 1 plan))
                      @ closing))))
   \<and> map fst (List.enumerate 1 plan) = [1..<1 + length plan]
   \<and> map fst (emitted (parse_raw (read_text txt)) 1 qids) =
       map fst (filter (\<lambda>p. map_of (parse_raw (read_text txt)) (snd p) \<noteq> None)
                  (List.enumerate 1 qids))
   \<and> ((\<forall>i\<in>set qids. map_of (parse_raw (read_text txt)) i \<noteq> None) \<longrightarrow>
        map fst (emitted (parse_raw (read_text txt)) 1 qids) = [1..<1 + length qids])"
proof -
  have a: "\<exists>log. migrate plan removed txt =
       Inr (log, join [newline]
                   (preamble
                      @ concat (map (section_part (parse_raw (read_text txt))) (List.enumerate 1 plan))
                      @ closing))"
    if f: "list_all id_fits (map fst (parse_raw (read_text txt)))"
  proof -
    obtain ids where ids: "sorted_ids (map fst (parse_raw (read_text txt))) = Inr ids"
      using sorted_ids_ok [OF good_keys_parse_raw f] by blast
    then show ?thesis
      by (simp add: migrate_def generate_plan_def Let_def gen_sections_eq)
  qed
  have b: "map fst (List.enumerate 1 plan) = [1..<1 + length plan]"
    by (simp add: enumerate_eq_zip)
  show ?thesis
    using a b emitted_positions [of "parse_raw (read_text txt)" 1 qids]
      emitted_all [of qids "parse_raw (read_text txt)" 1]
    by blast
qed

theorem migrate_numbering_witness:
  "map fst (emitted (parse_raw (read_text example_source)) 1 [''7.4'', ''1.1'', ''1.2'']) = [1, 2, 3]
   \<and> (\<exists>log. migrate [(''New'', [''7.4'', ''1.1'', ''1.2''])] {} example_source =
         Inr (log, join [newline]
                (preamble @ [''---'', [], ''## 1. New'', [], ''### 1.1 Third'', ''b3'', [],
                             ''### 1.2 First'', ''body a'', [], ''### 1.3 Second'', ''b2'', []]
                   @ closing)))"
proof -
  have "\<forall>i\<in>set [''7.4'', ''1.1'', ''1.2'']. map_of (parse_raw (read_text example_source)) i \<noteq> None"
    by code_simp
  then have "map fst (emitted (parse_raw (read_text example_source)) 1 [''7.4'', ''1.1'', ''1.2''])
      = [1..<1 + length [''7.4'', ''1.1'', ''1.2'']]"
    using migrate_numbering [where ?txt = example_source and qids = "[''7.4'', ''1.1'', ''1.2'']"]
    by blast
  moreover have "[1..<1 + length [''7.4'', ''1.1'', ''1.2'']] = [1, 2, 3::nat]"
    by code_simp
  ultimately have n: "map fst (emitted (parse_raw (read_text example_source)) 1 [''7.4'', ''1.1'', ''1.2''])
      = [1, 2, 3]"
    by simp
  have f: "list_all id_fits (map fst (parse_raw (read_text example_source)))"
    by code_simp
  have e: "concat (map (section_part (parse_raw (read_text example_source)))
             (List.enumerate 1 [(''New'', [''7.4'', ''1.1'', ''1.2''])]))
      = [''---'', [], ''## 1. New'', [], ''### 1.1 Third'', ''b3'', [],
         ''### 1.2 First'', ''body a'', [], ''### 1.3 Second'', ''b2'', []]"
    by code_simp
  have "\<exists>log. migrate [(''New'', [''7.4'', ''1.1'', ''1.2''])] {} example_source =
         Inr (log, join [newline]
                (preamble @ [''---'', [], ''## 1. New'', [], ''### 1.1 Third'', ''b3'', [],
                             ''### 1.2 First'', ''body a'', [], ''### 1.3 Second'', ''b2'', []]
                   @ closing))"
    using migrate_numbering [where ?txt = example_source
        and plan = "[(''New'', [''7.4'', ''1.1'', ''1.2''])]" and removed = "{}"] f
    unfolding e by blast
  then show ?thesis using n by blast
qed

theorem migrate_numbering_counterexample:
  "map fst (emitted (parse_raw (read_text example_source)) 1 [''7.4'', ''9.9'', ''1.1'']) = [1, 3]
   \<and> migrate [(''New'', [''7.4'', ''9.9'', ''1.1''])] {''1.2''} example_source =
     Inr ([''  ERROR: 9.9 not found in source!''],
          join [newline]
            (preamble @ [''---'', [], ''## 1. New'', [], ''### 1.1 Third'', ''b3'', [],
                         ''### 1.3 First'', ''body a'', []] @ closing))"
  by code_simp

end
